theory Spec2Isabelle
  imports Complex_Main "HOL-Library.Multiset"
begin

section \<open>Python strings\<close>

text \<open>
  A Python \<open>str\<close> is modelled as a \<open>string\<close>, the characters being the code points
  below 256. The functions of this section are the string methods that \<open>app.py\<close>
  calls, each with the behaviour CPython gives it on such strings.
\<close>

definition code_point :: "char \<Rightarrow> nat" where
  "code_point c = of_char c"

text \<open>\<open>c.isspace()\<close>: tab to carriage return, the four separators, space, NEL and NBSP.\<close>

definition isspace :: "char \<Rightarrow> bool" where
  "isspace c =
     (let n = code_point c
      in (9 \<le> n \<and> n \<le> 13) \<or> (28 \<le> n \<and> n \<le> 32) \<or> n = 133 \<or> n = 160)"

text \<open>\<open>s.strip()\<close> drops the leading and the trailing white space.\<close>

definition strip :: "string \<Rightarrow> string" where
  "strip s = rev (dropWhile isspace (rev (dropWhile isspace s)))"

text \<open>\<open>s.split(sep)\<close> for a separator of one character; the result is never empty.\<close>

fun split :: "char \<Rightarrow> string \<Rightarrow> string list" where
  "split sep [] = [[]]"
| "split sep (c # cs) =
     (if c = sep then [] # split sep cs
      else (case split sep cs of
              [] \<Rightarrow> [[c]]
            | l # ls \<Rightarrow> (c # l) # ls))"

text \<open>\<open>sep.join(parts)\<close>.\<close>

fun join :: "string \<Rightarrow> string list \<Rightarrow> string" where
  "join sep [] = []"
| "join sep [x] = x"
| "join sep (x # y # r) = x @ sep @ join sep (y # r)"

text \<open>\<open>s.startswith(a)\<close>, \<open>s.endswith(a)\<close> and \<open>a in s\<close>.\<close>

definition startswith :: "string \<Rightarrow> string \<Rightarrow> bool" where
  "startswith s a = (take (length a) s = a)"

definition endswith :: "string \<Rightarrow> string \<Rightarrow> bool" where
  "endswith s a = (length a \<le> length s \<and> drop (length s - length a) s = a)"

fun contains :: "string \<Rightarrow> string \<Rightarrow> bool" where
  "contains a [] = (a = [])"
| "contains a (c # cs) = (startswith (c # cs) a \<or> contains a cs)"

text \<open>\<open>s.lower()\<close>: the capital letters of ASCII and of Latin-1 move up by 32.\<close>

definition lower_char :: "char \<Rightarrow> char" where
  "lower_char c =
     (let n = code_point c
      in if (65 \<le> n \<and> n \<le> 90) \<or> (192 \<le> n \<and> n \<le> 222 \<and> n \<noteq> 215)
         then char_of (n + 32) else c)"

definition lower :: "string \<Rightarrow> string" where
  "lower s = map lower_char s"

text \<open>\<open>s.rfind(c)\<close>: the last index of \<open>c\<close>, or \<open>-1\<close>.\<close>

fun rfind :: "string \<Rightarrow> char \<Rightarrow> int" where
  "rfind [] c = -1"
| "rfind (x # xs) c =
     (let r = rfind xs c
      in if 0 \<le> r then r + 1 else if x = c then 0 else -1)"

text \<open>\<open>str(n)\<close> of an integer, and \<open>s.zfill(width)\<close>, which pads after a sign.\<close>

definition digit :: "nat \<Rightarrow> char" where
  "digit d = ''0123456789'' ! d"

fun str_nat :: "nat \<Rightarrow> string" where
  "str_nat n = (if n < 10 then [digit n] else str_nat (n div 10) @ [digit (n mod 10)])"

declare str_nat.simps [simp del]

definition str :: "int \<Rightarrow> string" where
  "str i = (if i < 0 then CHR ''-'' # str_nat (nat (- i)) else str_nat (nat i))"

definition zfill :: "string \<Rightarrow> nat \<Rightarrow> string" where
  "zfill s width =
     (if width \<le> length s then s
      else (case s of
              c # cs \<Rightarrow>
                if c = CHR ''+'' \<or> c = CHR ''-''
                then c # replicate (width - length s) CHR ''0'' @ cs
                else replicate (width - length s) CHR ''0'' @ s
            | [] \<Rightarrow> replicate width CHR ''0''))"


section \<open>Name sanitizer\<close>

text \<open>
  \<^verbatim>\<open>
  def limpiar_nombre_archivo(nombre):
      return re.sub(r'[\\/*?:"<>|]', "", nombre)
  \<close>
  The pattern is one bracket expression. \<open>patron\<close> is the text of the raw literal;
  in a bracket expression a backslash makes the next character a literal member.
  \<open>re.sub\<close> with an empty replacement scans the name from the left and drops each
  character that the expression matches.
\<close>

definition backslash :: char where
  "backslash = CHR 0x5C"

definition comillas :: char where
  "comillas = CHR 0x22"

definition patron :: string where
  "patron = ''['' @ [backslash, backslash] @ ''/*?:'' @ [comillas] @ ''<>|]''"

fun miembros :: "string \<Rightarrow> char list" where
  "miembros (c # d # r) = (if c = backslash then d # miembros r else c # miembros (d # r))"
| "miembros r = r"

definition clase :: "string \<Rightarrow> char list" where
  "clase pat = miembros (butlast (tl pat))"

fun re_sub_vacio :: "char list \<Rightarrow> string \<Rightarrow> string" where
  "re_sub_vacio cl [] = []"
| "re_sub_vacio cl (c # cs) =
     (if c \<in> set cl then re_sub_vacio cl cs else c # re_sub_vacio cl cs)"

definition limpiar_nombre_archivo :: "string \<Rightarrow> string" where
  "limpiar_nombre_archivo nombre = re_sub_vacio (clase patron) nombre"

text \<open>The nine characters that the specification lists.\<close>

definition caracteres_invalidos :: "char set" where
  "caracteres_invalidos =
     {backslash, CHR ''/'', CHR ''*'', CHR ''?'', CHR '':'', comillas,
      CHR ''<'', CHR ''>'', CHR ''|''}"


section \<open>Document name extractor\<close>

text \<open>
  \<^verbatim>\<open>
  lineas = texto_completo.split('\n')
  nombre_encontrado = None
  for i, linea in enumerate(lineas):
      if "Nombre(s) Primer apellido Segundo apellido" in linea:
          if i > 0:
              nombre_encontrado = lineas[i-1].strip()
              break
  \<close>
  The loop is \<open>buscar\<close>, by the index \<open>i\<close>; a match in the first line does not stop
  the scan.
\<close>

definition ancla :: string where
  "ancla = ''Nombre(s) Primer apellido Segundo apellido''"

definition salto :: char where
  "salto = CHR 0x0A"

function buscar :: "string list \<Rightarrow> nat \<Rightarrow> string option" where
  "buscar lineas i =
     (if i < length lineas then
        (if contains ancla (lineas ! i) then
           (if 0 < i then Some (strip (lineas ! (i - 1)))
            else buscar lineas (i + 1))
         else buscar lineas (i + 1))
      else None)"
  by pat_completeness auto
termination
  by (relation "measure (\<lambda>(lineas, i). length lineas - i)") auto

declare buscar.simps [simp del]

definition nombre_encontrado :: "string \<Rightarrow> string option" where
  "nombre_encontrado texto_completo = buscar (split salto texto_completo) 0"

text \<open>The example of the specification: the name \<open>B\<close> stands before the anchor line.\<close>

definition texto_ejemplo :: string where
  "texto_ejemplo = ''A'' @ [salto] @ ''B'' @ [salto] @ ancla @ [salto] @ ''C''"

text \<open>
  A text with the anchor in its first line, white space (space, tab, no-break space,
  carriage return) around the name line, and the anchor inside a longer line.
\<close>

definition texto_con_espacios :: string where
  "texto_con_espacios =
     ancla @ [salto] @
     [CHR '' '', CHR 0x09] @ ''Juan  Perez'' @ [CHR 0xA0, CHR 0x0D] @ [salto] @
     ''Campo: '' @ ancla @ '' (ver)'' @ [salto] @ ''C''"



section \<open>Coupon endpoint\<close>

text \<open>
  The body of the request, as \<open>request.get_json()\<close> returns it: a JSON value read into
  Python objects (\<open>null\<close> is \<open>None\<close>, an object is a \<open>dict\<close>, given by its items).
\<close>

datatype json =
    JNull
  | JBool bool
  | JInt int
  | JFloat rat
  | JStr string
  | JList "json list"
  | JDict "(string \<times> json) list"

datatype excepcion =
    AttributeError
  | FileNotFoundError
  | ValueError
  | IsADirectoryError
  | OSError
  | PdfError string

text \<open>\<open>not v\<close> is \<open>\<not> truthy v\<close>.\<close>

fun truthy :: "json \<Rightarrow> bool" where
  "truthy JNull = False"
| "truthy (JBool b) = b"
| "truthy (JInt i) = (i \<noteq> 0)"
| "truthy (JFloat q) = (q \<noteq> 0)"
| "truthy (JStr s) = (s \<noteq> [])"
| "truthy (JList l) = (l \<noteq> [])"
| "truthy (JDict d) = (d \<noteq> [])"

text \<open>
  \<open>data.get(k, dflt)\<close>: only a \<open>dict\<close> has the method. \<open>v.strip()\<close>: only a
  \<open>str\<close> has the method.
\<close>

fun dict_get :: "json \<Rightarrow> string \<Rightarrow> json \<Rightarrow> excepcion + json" where
  "dict_get (JDict d) k dflt =
     (case map_of d k of None \<Rightarrow> Inr dflt | Some v \<Rightarrow> Inr v)"
| "dict_get v k dflt = Inl AttributeError"

fun value_strip :: "json \<Rightarrow> excepcion + string" where
  "value_strip (JStr s) = Inr (strip s)"
| "value_strip v = Inl AttributeError"

text \<open>
  \<open>alumni_name.upper()\<close>: only a \<open>str\<close> has the method. The drawn text keeps the
  string and the fact that it is drawn in upper case.
\<close>

datatype texto = Literal string | Mayusculas string

fun value_upper :: "json \<Rightarrow> excepcion + texto" where
  "value_upper (JStr s) = Inr (Mayusculas s)"
| "value_upper v = Inl AttributeError"

text \<open>
  The assets on disk: whether \<open>coupon_base.jpg\<close> and the font file can be opened.
  The image that the endpoint returns is the base image with the texts drawn on it,
  each at its position and with the font in use.
\<close>

record assets =
  coupon_base :: bool
  font_file :: bool

datatype fuente = TrueType nat | Predeterminada

type_synonym trazo = "(int \<times> int) \<times> texto \<times> fuente"

datatype respuesta =
    Cupon "trazo list" string
  | Error400
  | Error500_archivo
  | Error500_interno excepcion
  | Error500_no_controlado excepcion

text \<open>
  \<^verbatim>\<open>
  def generate_coupon():
      global current_folio
      data = request.get_json()
      alumni_name = data.get('alumniName')
      recipient_name = data.get('recipientName', '').strip()
      if not alumni_name:
          return jsonify({"error": ...}), 400
      try:
          current_folio += 1
          folio_number = str(current_folio).zfill(4)
          image = Image.open(COUPON_BASE_IMAGE_PATH)
          ...
          draw.text((folio_x, folio_y), folio_number, ...)
          draw.text((alumni_name_x, alumni_name_y), alumni_name.upper(), ...)
          if recipient_name:
              draw.text((recipient_name_x, recipient_name_y), recipient_name.upper(), ...)
          ...
          return jsonify({"couponImage": base64_image, "folio": folio_number})
      except FileNotFoundError:
          return jsonify({"error": ...}), 500
      except Exception as e:
          return jsonify({"error": ...}), 500
  \<close>
  The function takes the global \<open>current_folio\<close> and returns it with the response.
  An exception outside the \<open>try\<close> reaches the framework, which answers 500.
\<close>

definition render :: "assets \<Rightarrow> string \<Rightarrow> json \<Rightarrow> string \<Rightarrow> excepcion + trazo list" where
  "render env folio_number alumni_name recipient_name =
     (if \<not> coupon_base env then Inl FileNotFoundError
      else
        let font = (if font_file env then TrueType 32 else Predeterminada) in
        (case value_upper alumni_name of
           Inl e \<Rightarrow> Inl e
         | Inr alumni \<Rightarrow>
             Inr ([((160, 28), Literal folio_number, font), ((400, 315), alumni, font)] @
                  (if recipient_name \<noteq> []
                   then [((430, 375), Mayusculas recipient_name, font)] else []))))"

definition generate_coupon :: "assets \<Rightarrow> json \<Rightarrow> int \<Rightarrow> respuesta \<times> int" where
  "generate_coupon env data current_folio =
     (case dict_get data ''alumniName'' JNull of
        Inl e \<Rightarrow> (Error500_no_controlado e, current_folio)
      | Inr alumni_name \<Rightarrow>
     (case dict_get data ''recipientName'' (JStr []) of
        Inl e \<Rightarrow> (Error500_no_controlado e, current_folio)
      | Inr recipient \<Rightarrow>
     (case value_strip recipient of
        Inl e \<Rightarrow> (Error500_no_controlado e, current_folio)
      | Inr recipient_name \<Rightarrow>
          if \<not> truthy alumni_name then (Error400, current_folio)
          else
            let current_folio = current_folio + 1;
                folio_number = zfill (str current_folio) 4
            in (case render env folio_number alumni_name recipient_name of
                  Inl FileNotFoundError \<Rightarrow> (Error500_archivo, current_folio)
                | Inl e \<Rightarrow> (Error500_interno e, current_folio)
                | Inr imagen \<Rightarrow> (Cupon imagen folio_number, current_folio)))))"

text \<open>The request passes line 135: the body is a \<open>dict\<close>, \<open>recipientName\<close> is absent or a
  string, and \<open>alumniName\<close> is truthy.\<close>

definition pasa_validacion :: "json \<Rightarrow> bool" where
  "pasa_validacion data =
     (case dict_get data ''alumniName'' JNull of
        Inl e \<Rightarrow> False
      | Inr alumni_name \<Rightarrow>
     (case dict_get data ''recipientName'' (JStr []) of
        Inl e \<Rightarrow> False
      | Inr recipient \<Rightarrow>
     (case value_strip recipient of
        Inl e \<Rightarrow> False
      | Inr recipient_name \<Rightarrow> truthy alumni_name)))"

text \<open>The process serves the requests one after the other, each with the assets as
  they are on disk at that moment; \<open>current_folio\<close> passes from one to the next.\<close>

fun atender :: "(assets \<times> json) list \<Rightarrow> int \<Rightarrow> respuesta list \<times> int" where
  "atender [] current_folio = ([], current_folio)"
| "atender ((env, data) # rest) current_folio =
     (let (r, current_folio) = generate_coupon env data current_folio;
          (rs, current_folio) = atender rest current_folio
      in (r # rs, current_folio))"

fun es_cupon :: "respuesta \<Rightarrow> bool" where
  "es_cupon (Cupon imagen folio) = True"
| "es_cupon r = False"

fun es_error_500_del_try :: "respuesta \<Rightarrow> bool" where
  "es_error_500_del_try Error500_archivo = True"
| "es_error_500_del_try (Error500_interno e) = True"
| "es_error_500_del_try r = False"

fun es_str :: "json \<Rightarrow> bool" where
  "es_str (JStr s) = True"
| "es_str v = False"

text \<open>The responses of a request that went through \<open>current_folio += 1\<close>.\<close>

definition consume_folio :: "respuesta \<Rightarrow> bool" where
  "consume_folio r = (es_cupon r \<or> es_error_500_del_try r)"

definition con_assets :: assets where
  "con_assets = \<lparr>coupon_base = True, font_file = True\<rparr>"

definition sin_imagen :: assets where
  "sin_imagen = \<lparr>coupon_base = False, font_file = True\<rparr>"

definition peticion_ana :: json where
  "peticion_ana = JDict [(''alumniName'', JStr ''Ana'')]"

definition peticion_en_blanco :: json where
  "peticion_en_blanco = JDict [(''alumniName'', JStr ''   '')]"

definition peticion_numero :: json where
  "peticion_numero = JDict [(''alumniName'', JInt 5)]"

definition cupon_ana :: "string \<Rightarrow> respuesta" where
  "cupon_ana folio =
     Cupon [((160, 28), Literal folio, TrueType 32),
            ((400, 315), Mayusculas ''Ana'', TrueType 32)] folio"

section \<open>Directory tree\<close>

text \<open>
  What \<open>pdfplumber\<close> makes of a file: it raises while the file is opened or read, or
  it gives the pages, each with the result of \<open>extract_text()\<close> (\<open>None\<close> or a string).
\<close>

datatype documento = Ilegible string | Paginas "string option list"

text \<open>
  A directory as \<open>os.walk\<close> lists it: the files and the subdirectories, each list in
  the order of the listing. A rename keeps the place of the entry in the listing.
  Where a renamed entry stands when the directory is listed again is the file
  system's business: a later walk sees the tree through a new listing (\<open>listar\<close> in
  the archive endpoint). The file system is case sensitive, and a name holds at most
  255 bytes (\<open>NAME_MAX\<close> of the Linux file systems) in UTF-8, where a character from
  128 on takes two bytes; the paths of the tree stay below \<open>PATH_MAX\<close>.
\<close>

datatype arbol = Carpeta "(string \<times> documento) list" "(string \<times> arbol) list"

type_synonym archivos = "(string \<times> documento) list"

definition nul :: char where
  "nul = CHR 0x00"

definition bytes_utf8 :: "string \<Rightarrow> nat" where
  "bytes_utf8 n = length n + length (filter (\<lambda>c. 128 \<le> code_point c) n)"

definition nombre_largo :: "string \<Rightarrow> bool" where
  "nombre_largo n = (255 < bytes_utf8 n)"

text \<open>
  \<open>os.path.exists\<close> of a name in the directory; it is \<open>False\<close> for a name with a NUL
  character and for a name that is too long (\<open>os.stat\<close> raises, \<open>exists\<close> answers
  \<open>False\<close>). \<open>os.rename\<close> inside the directory (POSIX): a NUL character raises
  \<open>ValueError\<close>, a name that is too long raises \<open>OSError\<close>, an existing file at the
  target is replaced.
\<close>

definition path_exists :: "archivos \<Rightarrow> string list \<Rightarrow> string \<Rightarrow> bool" where
  "path_exists fs ds n =
     (nul \<notin> set n \<and> \<not> nombre_largo n \<and> (n \<in> set (map fst fs) \<or> n \<in> set ds))"

definition cambiar_nombre :: "string \<Rightarrow> string \<Rightarrow> archivos \<Rightarrow> archivos" where
  "cambiar_nombre src dst fs = map (\<lambda>(k, v). if k = src then (dst, v) else (k, v)) fs"

definition os_rename :: "archivos \<Rightarrow> string list \<Rightarrow> string \<Rightarrow> string \<Rightarrow> excepcion + archivos" where
  "os_rename fs ds src dst =
     (if nul \<in> set dst then Inl ValueError
      else if nombre_largo dst then Inl OSError
      else if map_of fs src = None then Inl FileNotFoundError
      else if dst \<in> set ds then Inl IsADirectoryError
      else Inr (cambiar_nombre src dst (filter (\<lambda>(k, v). k = src \<or> k \<noteq> dst) fs)))"

definition pdf_open :: "archivos \<Rightarrow> string \<Rightarrow> excepcion + string option list" where
  "pdf_open fs n =
     (case map_of fs n of
        None \<Rightarrow> Inl FileNotFoundError
      | Some (Ilegible m) \<Rightarrow> Inl (PdfError m)
      | Some (Paginas ps) \<Rightarrow> Inr ps)"

text \<open>
  \<open>os.path.relpath(os.path.join(dirpath, name), directorio_base)\<close>, the directory given
  by its components below the base.
\<close>

definition relpath :: "string list \<Rightarrow> string \<Rightarrow> string" where
  "relpath dirpath n = join ''/'' (dirpath @ [n])"

definition es_pdf :: "string \<Rightarrow> bool" where
  "es_pdf nombre_archivo = endswith (lower nombre_archivo) ''.pdf''"

text \<open>
  \<open>os.path.splitext\<close> (\<open>genericpath._splitext\<close> with \<open>sep = '/'\<close>, no \<open>altsep\<close>):
  \<^verbatim>\<open>
  sepIndex = p.rfind(sep)
  dotIndex = p.rfind(extsep)
  if dotIndex > sepIndex:
      filenameIndex = sepIndex + 1
      while filenameIndex < dotIndex:
          if p[filenameIndex:filenameIndex+1] != extsep:
              return p[:dotIndex], p[dotIndex:]
          filenameIndex += 1
  return p, p[:0]
  \<close>
\<close>

function splitext_loop :: "string \<Rightarrow> nat \<Rightarrow> nat \<Rightarrow> string \<times> string" where
  "splitext_loop p dotIndex filenameIndex =
     (if filenameIndex < dotIndex then
        (if p ! filenameIndex \<noteq> CHR ''.'' then (take dotIndex p, drop dotIndex p)
         else splitext_loop p dotIndex (filenameIndex + 1))
      else (p, []))"
  by pat_completeness auto
termination
  by (relation "measure (\<lambda>(p, dotIndex, filenameIndex). dotIndex - filenameIndex)") auto

declare splitext_loop.simps [simp del]

definition splitext :: "string \<Rightarrow> string \<times> string" where
  "splitext p =
     (let sepIndex = rfind p CHR ''/'';
          dotIndex = rfind p CHR ''.''
      in if dotIndex > sepIndex
         then splitext_loop p (nat dotIndex) (nat (sepIndex + 1))
         else (p, []))"

text \<open>The name that the collision loop tries for a counter.\<close>

definition con_sufijo :: "string \<Rightarrow> string \<Rightarrow> nat \<Rightarrow> string" where
  "con_sufijo original_base original_ext counter =
     original_base @ ''_'' @ str (int counter) @ original_ext"

text \<open>
  \<open>str\<close> is one-to-one on the counters, so the names tried by the loop are pairwise
  distinct and only finitely many of them exist in a directory: the loop ends.
\<close>

fun valor_decimal :: "string \<Rightarrow> nat" where
  "valor_decimal [] = 0"
| "valor_decimal (c # cs) =
     (code_point c - 48) * 10 ^ length cs + valor_decimal cs"

lemma valor_decimal_append: "valor_decimal (a @ b) = valor_decimal a * 10 ^ length b + valor_decimal b"
  by (induction a) (auto simp: algebra_simps power_add)

lemma code_point_digits: "list_all (\<lambda>d. code_point (digit d) = 48 + d) [0..<10]"
  by code_simp

lemma code_point_digit: "d < 10 \<Longrightarrow> code_point (digit d) = 48 + d"
  using code_point_digits by (simp add: list_all_iff)

lemma valor_decimal_str_nat: "valor_decimal (str_nat n) = n"
proof (induction n rule: str_nat.induct)
  case (1 n)
  show ?case
  proof (cases "n < 10")
    case True
    then show ?thesis by (subst str_nat.simps) (simp add: code_point_digit)
  next
    case False
    then have "valor_decimal (str_nat n) = valor_decimal (str_nat (n div 10)) * 10 + n mod 10"
      by (subst str_nat.simps) (simp add: valor_decimal_append code_point_digit)
    with 1 False show ?thesis by simp
  qed
qed

lemma str_nat_inj: "str_nat a = str_nat b \<Longrightarrow> a = b"
  by (metis valor_decimal_str_nat)

lemma str_int_nat_inj: "str (int a) = str (int b) \<Longrightarrow> a = b"
  by (simp add: str_def str_nat_inj)

lemma con_sufijo_inj: "con_sufijo b e j = con_sufijo b e k \<Longrightarrow> j = k"
  by (simp add: con_sufijo_def str_int_nat_inj)

lemma finite_sufijos: "finite {k. path_exists fs ds (con_sufijo b e k)}"
proof -
  have "{k. path_exists fs ds (con_sufijo b e k)} \<subseteq> con_sufijo b e -` (set (map fst fs) \<union> set ds)"
    by (auto simp: path_exists_def)
  moreover have "finite (con_sufijo b e -` (set (map fst fs) \<union> set ds))"
    by (rule finite_vimageI) (auto simp: inj_on_def dest: con_sufijo_inj)
  ultimately show ?thesis by (rule finite_subset)
qed

section \<open>Rename engine\<close>

text \<open>
  \<^verbatim>\<open>
  counter = 1
  original_base, original_ext = os.path.splitext(nuevo_nombre_archivo)
  while os.path.exists(ruta_completa_nueva):
      nuevo_nombre_archivo = f"{original_base}_{counter}{original_ext}"
      ruta_completa_nueva = os.path.join(dirpath, nuevo_nombre_archivo)
      counter += 1
  \<close>
\<close>

function nombre_libre ::
  "archivos \<Rightarrow> string list \<Rightarrow> string \<Rightarrow> string \<Rightarrow> string \<Rightarrow> nat \<Rightarrow> string" where
  "nombre_libre fs ds original_base original_ext nuevo_nombre_archivo counter =
     (if path_exists fs ds nuevo_nombre_archivo
      then nombre_libre fs ds original_base original_ext
             (con_sufijo original_base original_ext counter) (counter + 1)
      else nuevo_nombre_archivo)"
  by pat_completeness auto
termination
proof (relation "measure (\<lambda>(fs, ds, b, e, n, c).
    2 * card {k. c \<le> k \<and> path_exists fs ds (con_sufijo b e k)} +
    (if path_exists fs ds n then 1 else 0))", goal_cases)
  case 1
  show ?case by simp
next
  case (2 fs ds b e n c)
  let ?A = "{k. c \<le> k \<and> path_exists fs ds (con_sufijo b e k)}"
  let ?B = "{k. c + 1 \<le> k \<and> path_exists fs ds (con_sufijo b e k)}"
  have fin: "finite ?A"
    by (rule finite_subset [OF _ finite_sufijos [of fs ds b e]]) auto
  show ?case
  proof (cases "path_exists fs ds (con_sufijo b e c)")
    case True
    have "?A = insert c ?B" using True by (auto simp: le_Suc_eq)
    moreover have "c \<notin> ?B" by simp
    moreover have "finite ?B" by (rule finite_subset [OF _ fin]) auto
    ultimately have "card ?A = Suc (card ?B)" by simp
    with 2 True show ?thesis by simp
  next
    case False
    have "?A = ?B" using False by (auto simp: le_Suc_eq) (metis Suc_leI le_neq_implies_less)
    with 2 False show ?thesis by simp
  qed
qed

declare nombre_libre.simps [simp del]

text \<open>
  The messages of the engine, one constructor for each f-string, with the values
  that the f-string prints. A message is printed, and a warning or an error is also
  appended to \<open>advertencias_errores\<close>.
\<close>

datatype mensaje =
    Iniciando
  | SinPaginas string
  | SinTexto string
  | Renombrado string string
  | YaNombrado string
  | SinClave string
  | ErrorAlProcesar string excepcion
  | SinPdfs
  | Finalizado

record estado =
  pdf_procesados :: nat
  renombrados_info :: "string list"
  advertencias_errores :: "mensaje list"
  impreso :: "mensaje list"

definition imprimir :: "mensaje \<Rightarrow> estado \<Rightarrow> estado" where
  "imprimir msg st = st\<lparr>impreso := impreso st @ [msg]\<rparr>"

definition advertir :: "mensaje \<Rightarrow> estado \<Rightarrow> estado" where
  "advertir msg st =
     (imprimir msg st)\<lparr>advertencias_errores := advertencias_errores st @ [msg]\<rparr>"

definition anotar :: "string \<Rightarrow> estado \<Rightarrow> estado" where
  "anotar ruta st = st\<lparr>renombrados_info := renombrados_info st @ [ruta]\<rparr>"

text \<open>
  The body of the \<open>try\<close> of lines 62 to 111 for the file \<open>nombre_archivo\<close> of the
  directory \<open>dirpath\<close>, whose files are \<open>fs\<close> and whose subdirectories are named \<open>ds\<close>.
  It raises (\<open>Inl\<close>) or ends with the files of the directory and the state. The two
  absolute paths of line 92 lie in the same directory, so they differ when the two
  names differ.
\<close>

definition intentar ::
  "string list \<Rightarrow> string list \<Rightarrow> archivos \<Rightarrow> string \<Rightarrow> estado \<Rightarrow> excepcion + archivos \<times> estado" where
  "intentar dirpath ds fs nombre_archivo st =
     (let relative_path_original = relpath dirpath nombre_archivo in
      case pdf_open fs nombre_archivo of
        Inl e \<Rightarrow> Inl e
      | Inr [] \<Rightarrow> Inr (fs, advertir (SinPaginas relative_path_original) st)
      | Inr (None # pages) \<Rightarrow> Inr (fs, advertir (SinTexto relative_path_original) st)
      | Inr (Some texto_completo # pages) \<Rightarrow>
          if texto_completo = [] then Inr (fs, advertir (SinTexto relative_path_original) st)
          else
            (case nombre_encontrado texto_completo of
               None \<Rightarrow> Inr (fs, advertir (SinClave relative_path_original) st)
             | Some nombre \<Rightarrow>
                 if nombre = [] then Inr (fs, advertir (SinClave relative_path_original) st)
                 else
                   let nombre_limpio = limpiar_nombre_archivo nombre;
                       nuevo_nombre_archivo = nombre_limpio @ ''.pdf''
                   in if nombre_archivo \<noteq> nuevo_nombre_archivo then
                        let (original_base, original_ext) = splitext nuevo_nombre_archivo;
                            nuevo_nombre_archivo =
                              nombre_libre fs ds original_base original_ext nuevo_nombre_archivo 1
                        in (case os_rename fs ds nombre_archivo nuevo_nombre_archivo of
                              Inl e \<Rightarrow> Inl e
                            | Inr fs' \<Rightarrow>
                                Inr (fs', anotar (relpath dirpath nuevo_nombre_archivo)
                                       (imprimir (Renombrado relative_path_original
                                          (relpath dirpath nuevo_nombre_archivo)) st)))
                      else
                        Inr (fs, anotar relative_path_original
                               (imprimir (YaNombrado relative_path_original) st))))"

text \<open>One file that passed the filter of line 57: the counter, the \<open>try\<close>, the handler.\<close>

definition procesar_pdf ::
  "string list \<Rightarrow> string list \<Rightarrow> archivos \<Rightarrow> string \<Rightarrow> estado \<Rightarrow> archivos \<times> estado" where
  "procesar_pdf dirpath ds fs nombre_archivo st =
     (let st = st\<lparr>pdf_procesados := pdf_procesados st + 1\<rparr> in
      case intentar dirpath ds fs nombre_archivo st of
        Inl e \<Rightarrow> (fs, advertir (ErrorAlProcesar (relpath dirpath nombre_archivo) e) st)
      | Inr r \<Rightarrow> r)"

text \<open>The loop of line 56 over \<open>filenames\<close>, the names listed when the walk reached the
  directory.\<close>

fun procesar_archivos ::
  "string list \<Rightarrow> string list \<Rightarrow> archivos \<Rightarrow> string list \<Rightarrow> estado \<Rightarrow> archivos \<times> estado" where
  "procesar_archivos dirpath ds fs [] st = (fs, st)"
| "procesar_archivos dirpath ds fs (nombre_archivo # filenames) st =
     (if es_pdf nombre_archivo then
        (case procesar_pdf dirpath ds fs nombre_archivo st of
           (fs', st') \<Rightarrow> procesar_archivos dirpath ds fs' filenames st')
      else procesar_archivos dirpath ds fs filenames st)"

text \<open>\<open>os.walk\<close>, top down: the files of a directory, then each subdirectory in turn.\<close>

fun walk :: "string list \<Rightarrow> arbol \<Rightarrow> estado \<Rightarrow> arbol \<times> estado"
  and walk_carpetas ::
    "string list \<Rightarrow> (string \<times> arbol) list \<Rightarrow> estado \<Rightarrow> (string \<times> arbol) list \<times> estado" where
  "walk dirpath (Carpeta fs cs) st =
     (case procesar_archivos dirpath (map fst cs) fs (map fst fs) st of
        (fs', st') \<Rightarrow>
          (case walk_carpetas dirpath cs st' of
             (cs', st'') \<Rightarrow> (Carpeta fs' cs', st'')))"
| "walk_carpetas dirpath [] st = ([], st)"
| "walk_carpetas dirpath ((d, t) # cs) st =
     (case walk (dirpath @ [d]) t st of
        (t', st') \<Rightarrow>
          (case walk_carpetas dirpath cs st' of
             (cs', st'') \<Rightarrow> ((d, t') # cs', st'')))"

definition estado_inicial :: estado where
  "estado_inicial =
     \<lparr>pdf_procesados = 0, renombrados_info = [], advertencias_errores = [],
      impreso = [Iniciando]\<rparr>"

text \<open>
  \<open>renombrar_pdfs_en_directorio\<close> returns the tree as the run leaves it and the final
  state, whose \<open>renombrados_info\<close> and \<open>advertencias_errores\<close> are the two lists that
  the Python function returns.
\<close>

definition renombrar_pdfs_en_directorio :: "arbol \<Rightarrow> arbol \<times> estado" where
  "renombrar_pdfs_en_directorio directorio_base =
     (case walk [] directorio_base estado_inicial of
        (t, st) \<Rightarrow>
          (t, imprimir Finalizado
                (if pdf_procesados st = 0 then advertir SinPdfs st else st)))"


section \<open>Archive endpoint\<close>

text \<open>
  \<^verbatim>\<open>
  with zipfile.ZipFile(output_zip_path, 'w', zipfile.ZIP_DEFLATED) as zip_out:
      for dirpath, _, filenames in os.walk(extracted_dir):
          for filename in filenames:
              if filename.lower().endswith('.pdf'):
                  full_path = os.path.join(dirpath, filename)
                  arcname = os.path.relpath(full_path, extracted_dir)
                  zip_out.write(full_path, arcname)
  \<close>
  The archive is the list of its entries, each an entry name with the file.
\<close>

fun zip_walk :: "string list \<Rightarrow> arbol \<Rightarrow> (string \<times> documento) list"
  and zip_carpetas :: "string list \<Rightarrow> (string \<times> arbol) list \<Rightarrow> (string \<times> documento) list" where
  "zip_walk dirpath (Carpeta fs cs) =
     map (\<lambda>(filename, doc). (relpath dirpath filename, doc))
         (filter (\<lambda>(filename, doc). es_pdf filename) fs)
     @ zip_carpetas dirpath cs"
| "zip_carpetas dirpath [] = []"
| "zip_carpetas dirpath ((d, t) # cs) = zip_walk (dirpath @ [d]) t @ zip_carpetas dirpath cs"

text \<open>
  \<^verbatim>\<open>
  temp_dir = tempfile.mkdtemp()
  extracted_dir = os.path.join(temp_dir, 'extracted_pdfs')
  os.makedirs(extracted_dir)
  ...
  uploaded_zip_path = os.path.join(temp_dir, zip_file.filename)
  zip_file.save(uploaded_zip_path)
  \<close>
  \<open>save\<close> opens the path for writing. At that moment the temporary directory holds
  the empty directory \<open>extracted_pdfs\<close> and nothing else. \<open>zip_save\<close> is the exception
  that the name of the upload alone decides: a NUL character (\<open>ValueError\<close>), a path
  of 4096 bytes or more or a component of more than 255 bytes (\<open>OSError\<close>), a
  directory on the way that does not exist (\<open>FileNotFoundError\<close>). The temporary
  directory is \<open>/tmp/tmp\<close> with eight characters, as \<open>mkdtemp\<close> names it under \<open>/tmp\<close>:
  17 bytes of the path come before the name of the upload. A name that starts with
  \<open>/\<close> replaces the directory in \<open>os.path.join\<close>, and \<open>..\<close> in the temporary directory
  leaves it: what happens there is the host's, and \<open>zip_save\<close> decides nothing.
\<close>

datatype lugar = Temporal | Extraccion

fun zip_save_en :: "lugar \<Rightarrow> string list \<Rightarrow> excepcion option" where
  "zip_save_en l [] = None"
| "zip_save_en l [n] = (if nombre_largo n then Some OSError else None)"
| "zip_save_en l (c # resto) =
     (if c = [] \<or> c = ''.'' then zip_save_en l resto
      else if c = ''..'' then
        (case l of Temporal \<Rightarrow> None | Extraccion \<Rightarrow> zip_save_en Temporal resto)
      else if l = Temporal \<and> c = ''extracted_pdfs'' then zip_save_en Extraccion resto
      else if nombre_largo c then Some OSError
      else Some FileNotFoundError)"

definition zip_save :: "string \<Rightarrow> excepcion option" where
  "zip_save filename =
     (if nul \<in> set filename then Some ValueError
      else if startswith filename ''/'' then None
      else if 4096 \<le> 17 + bytes_utf8 filename then Some OSError
      else zip_save_en Temporal (split CHR ''/'' filename))"

text \<open>
  The upload: the field \<open>zip_file\<close> may be absent; a file has a name and its bytes.
  What lines 215 and 216 make of the bytes, once they are saved: they raise
  \<open>BadZipFile\<close>, they raise another exception, or \<open>extractall\<close> returns, and then the
  extraction directory holds a tree. An exception of \<open>save\<close> that the name does not
  decide (the disk, the permissions) is among the other exceptions.
\<close>

datatype extraccion = Falla excepcion | ZipInvalido | Extraido arbol

datatype respuesta_zip =
    Renombrados "(string \<times> documento) list"
  | SinArchivo400
  | NoEsZip400
  | ZipInvalido400
  | Error500 excepcion

text \<open>
  The endpoint. The second \<open>os.walk\<close> (line 226) lists every directory anew: \<open>listar\<close>
  gives the tree that the rename engine left in the order of that listing.
\<close>

definition rename_pdf :: "(arbol \<Rightarrow> arbol) \<Rightarrow> (string \<times> extraccion) option \<Rightarrow> respuesta_zip" where
  "rename_pdf listar zip_file =
     (case zip_file of
        None \<Rightarrow> SinArchivo400
      | Some (filename, contenido) \<Rightarrow>
          if \<not> endswith filename ''.zip'' then NoEsZip400
          else
            (case zip_save filename of
               Some e \<Rightarrow> Error500 e
             | None \<Rightarrow>
                 (case contenido of
                    Falla e \<Rightarrow> Error500 e
                  | ZipInvalido \<Rightarrow> ZipInvalido400
                  | Extraido extracted \<Rightarrow>
                      (case renombrar_pdfs_en_directorio extracted of
                         (t, st) \<Rightarrow> Renombrados (zip_walk [] (listar t))))))"

text \<open>The files of a tree, each with the components of its directory and its name.\<close>

fun ficheros :: "arbol \<Rightarrow> (string list \<times> string \<times> documento) list"
  and ficheros_carpetas :: "(string \<times> arbol) list \<Rightarrow> (string list \<times> string \<times> documento) list" where
  "ficheros (Carpeta fs cs) = map (\<lambda>(n, doc). ([], n, doc)) fs @ ficheros_carpetas cs"
| "ficheros_carpetas [] = []"
| "ficheros_carpetas ((d, t) # cs) =
     map (\<lambda>(dirpath, n, doc). (d # dirpath, n, doc)) (ficheros t) @ ficheros_carpetas cs"

text \<open>
  The words of the specification for the output archive: a name that ends in \<open>.pdf\<close>,
  in capital or small letters, and the path of a file relative to the root of the
  tree, the directories on the way each followed by a slash.
\<close>

definition termina_en_pdf :: "string \<Rightarrow> bool" where
  "termina_en_pdf n =
     (case rev n of
        c3 # c2 # c1 # punto # b \<Rightarrow>
          punto = CHR ''.'' \<and> c1 \<in> set ''pP'' \<and> c2 \<in> set ''dD'' \<and> c3 \<in> set ''fF''
      | _ \<Rightarrow> False)"

definition ruta :: "string list \<Rightarrow> string \<Rightarrow> string" where
  "ruta dirpath n = concat (map (\<lambda>d. d @ ''/'') dirpath) @ n"

text \<open>A listing in another order: every directory backwards.\<close>

fun al_reves :: "arbol \<Rightarrow> arbol"
  and al_reves_carpetas :: "(string \<times> arbol) list \<Rightarrow> (string \<times> arbol) list" where
  "al_reves (Carpeta fs cs) = Carpeta (rev fs) (al_reves_carpetas cs)"
| "al_reves_carpetas [] = []"
| "al_reves_carpetas ((d, t) # cs) = al_reves_carpetas cs @ [(d, al_reves t)]"

text \<open>Example documents: a first page with a name line before the anchor line.\<close>

definition doc_de :: "string \<Rightarrow> documento" where
  "doc_de nombre = Paginas [Some (nombre @ [salto] @ ancla)]"

text \<open>
  The file name that lines 86 to 88 compute for a document, when they compute one:
  the sanitized name found on the first page, with \<open>.pdf\<close>.
\<close>

definition candidato :: "documento \<Rightarrow> string option" where
  "candidato doc =
     (case doc of
        Paginas (Some texto_completo # pages) \<Rightarrow>
          if texto_completo = [] then None
          else (case nombre_encontrado texto_completo of
                  None \<Rightarrow> None
                | Some nombre \<Rightarrow>
                    if nombre = [] then None
                    else Some (limpiar_nombre_archivo nombre @ ''.pdf''))
      | _ \<Rightarrow> None)"

text \<open>
  The exception that the \<open>try\<close> raises for a file of a given name, whatever else the
  directory holds: the document is unreadable, or its new name holds a NUL character
  or is too long, which \<open>os.rename\<close> refuses.
\<close>

definition falla :: "string \<Rightarrow> documento \<Rightarrow> excepcion option" where
  "falla nombre_archivo doc =
     (case doc of
        Ilegible m \<Rightarrow> Some (PdfError m)
      | Paginas ps \<Rightarrow>
          (case candidato doc of
             None \<Rightarrow> None
           | Some c \<Rightarrow>
               if c \<noteq> nombre_archivo \<and> nul \<in> set c then Some ValueError
               else if c \<noteq> nombre_archivo \<and> nombre_largo c then Some OSError
               else None))"

text \<open>A tree of the file system: the names of a directory are pairwise distinct.\<close>

fun bien_formado :: "arbol \<Rightarrow> bool"
  and bien_formadas :: "(string \<times> arbol) list \<Rightarrow> bool" where
  "bien_formado (Carpeta fs cs) = (distinct (map fst fs @ map fst cs) \<and> bien_formadas cs)"
| "bien_formadas [] = True"
| "bien_formadas ((d, t) # cs) = (bien_formado t \<and> bien_formadas cs)"

definition pdfs :: "arbol \<Rightarrow> (string list \<times> string \<times> documento) list" where
  "pdfs t = filter (\<lambda>(dirpath, n, doc). es_pdf n) (ficheros t)"

definition pdfs_carpetas :: "(string \<times> arbol) list \<Rightarrow> (string list \<times> string \<times> documento) list" where
  "pdfs_carpetas cs = filter (\<lambda>(dirpath, n, doc). es_pdf n) (ficheros_carpetas cs)"

text \<open>
  A tree in which every PDF bears the name that the engine computes for it: each
  listed name that passes the filter opens a document whose \<open>candidato\<close> is that name.
\<close>

definition en_su_nombre :: "archivos \<Rightarrow> string \<Rightarrow> bool" where
  "en_su_nombre fs n =
     (case map_of fs n of None \<Rightarrow> False | Some doc \<Rightarrow> candidato doc = Some n)"

fun asentado :: "arbol \<Rightarrow> bool"
  and asentadas :: "(string \<times> arbol) list \<Rightarrow> bool" where
  "asentado (Carpeta fs cs) =
     (list_all (en_su_nombre fs) (filter es_pdf (map fst fs)) \<and> asentadas cs)"
| "asentadas [] = True"
| "asentadas ((d, t) # cs) = (asentado t \<and> asentadas cs)"

text \<open>Example trees.\<close>

definition arbol_notas :: arbol where
  "arbol_notas = Carpeta [(''a.pdf'', doc_de ''X Y''), (''notes.txt'', Ilegible ''text'')] []"

definition arbol_mixto :: arbol where
  "arbol_mixto =
     Carpeta [(''a.pdf'', doc_de ''X Y''), (''notes.txt'', Ilegible ''text'')]
             [(''sub'', Carpeta [(''z.pdf'', Ilegible ''bad''),
                                 (''w.pdf'', doc_de ''Juan Perez''),
                                 (''v.pdf'', doc_de [nul])] [])]"

definition arbol_homonimos :: arbol where
  "arbol_homonimos =
     Carpeta [(''a.pdf'', doc_de ''Juan Perez''), (''b.pdf'', doc_de ''Juan Perez''),
              (''c.pdf'', doc_de ''Juan Perez'')] []"

definition arbol_signos :: arbol where
  "arbol_signos = Carpeta [(''a.pdf'', doc_de ''?''), (''b.pdf'', doc_de ''?'')] []"

definition sin_ancla :: documento where
  "sin_ancla = Paginas [Some ''Sin datos'']"

definition arbol_pareja :: arbol where
  "arbol_pareja =
     Carpeta [(''a.pdf'', doc_de ''Juan Perez''), (''b.pdf'', doc_de ''Juan Perez'')] []"

definition arbol_subido :: arbol where
  "arbol_subido =
     Carpeta [(''a.pdf'', doc_de ''X Y''), (''notes.txt'', Ilegible ''text''),
              (''c.pdf'', doc_de ''Juan Perez'')]
             [(''sub'', Carpeta [(''B.PDF'', sin_ancla), (''b.pdf.bak'', sin_ancla)] [])]"

definition archivos_sub :: archivos where
  "archivos_sub =
     [(''z.pdf'', Ilegible ''bad''), (''w.pdf'', doc_de ''Juan Perez''), (''v.pdf'', doc_de [nul])]"

section \<open>String lemmas\<close>

lemma split_not_Nil: "split sep s \<noteq> []"
  by (induction s) (auto split: list.splits)

lemma join_split: "join [sep] (split sep s) = s"
proof (induction s)
  case Nil show ?case by simp
next
  case (Cons c cs)
  obtain l ls where e: "split sep cs = l # ls" using split_not_Nil by (cases "split sep cs") auto
  with Cons show ?case by (cases ls) auto
qed

lemma split_no_sep: "l \<in> set (split sep s) \<Longrightarrow> sep \<notin> set l"
  by (induction s arbitrary: l) (auto split: if_splits list.splits)

lemma strip_decompose:
  "\<exists>a b. s = a @ strip s @ b \<and> list_all isspace a \<and> list_all isspace b"
proof -
  let ?a = "takeWhile isspace s" and ?m = "dropWhile isspace s"
  let ?b = "rev (takeWhile isspace (rev ?m))"
  have "?m = strip s @ ?b"
    unfolding strip_def by (metis rev_append rev_rev_ident takeWhile_dropWhile_id)
  then have "s = ?a @ strip s @ ?b" by (metis takeWhile_dropWhile_id)
  moreover have "list_all isspace ?a" by (simp add: list_all_iff) (metis set_takeWhileD)
  moreover have "list_all isspace ?b" by (simp add: list_all_iff) (metis set_takeWhileD)
  ultimately show ?thesis by blast
qed

lemma strip_ends:
  "strip s \<noteq> [] \<Longrightarrow> \<not> isspace (hd (strip s)) \<and> \<not> isspace (last (strip s))"
proof -
  assume ne: "strip s \<noteq> []"
  let ?m = "dropWhile isspace s"
  let ?r = "dropWhile isspace (rev ?m)"
  have r: "?r \<noteq> []" using ne by (simp add: strip_def)
  then have h: "\<not> isspace (hd ?r)" by (rule hd_dropWhile)
  have l: "last (strip s) = hd ?r" using r by (simp add: strip_def last_rev)
  have m: "?m \<noteq> []" using r by (auto dest: set_dropWhileD)
  then have hm: "\<not> isspace (hd ?m)" by (rule hd_dropWhile)
  have "rev ?m = takeWhile isspace (rev ?m) @ ?r" by simp
  then have "last (rev ?m) = last ?r" using r by (metis last_appendR)
  then have "hd ?m = last ?r" using m by (simp add: last_rev)
  moreover have "hd (strip s) = last ?r" using r by (simp add: strip_def hd_rev)
  ultimately show ?thesis using hm h l by simp
qed

lemma contains_iff: "contains a s \<longleftrightarrow> (\<exists>p q. s = p @ a @ q)"
proof (induction s)
  case Nil
  then show ?case by auto
next
  case (Cons c cs)
  have "startswith (c # cs) a \<longleftrightarrow> (\<exists>q. c # cs = a @ q)"
    unfolding startswith_def
    by (metis append_eq_conv_conj append_take_drop_id)
  moreover have "(\<exists>p q. c # cs = p @ a @ q) \<longleftrightarrow>
      (\<exists>q. c # cs = a @ q) \<or> (\<exists>p q. cs = p @ a @ q)"
  proof
    assume "\<exists>p q. c # cs = p @ a @ q"
    then obtain p q where pq: "c # cs = p @ a @ q" by blast
    show "(\<exists>q. c # cs = a @ q) \<or> (\<exists>p q. cs = p @ a @ q)"
    proof (cases p)
      case Nil
      with pq show ?thesis by auto
    next
      case (Cons x p')
      with pq have "cs = p' @ a @ q" by simp
      then show ?thesis by blast
    qed
  next
    assume "(\<exists>q. c # cs = a @ q) \<or> (\<exists>p q. cs = p @ a @ q)"
    then show "\<exists>p q. c # cs = p @ a @ q"
    proof
      assume "\<exists>q. c # cs = a @ q"
      then obtain q where "c # cs = [] @ a @ q" by auto
      then show ?thesis by blast
    next
      assume "\<exists>p q. cs = p @ a @ q"
      then obtain p q where "c # cs = (c # p) @ a @ q" by auto
      then show ?thesis by blast
    qed
  qed
  ultimately show ?case using Cons.IH by simp
qed

lemma re_sub_vacio_filter: "re_sub_vacio cl s = filter (\<lambda>c. c \<notin> set cl) s"
  by (induction s) auto

lemma clase_patron: "set (clase patron) = caracteres_invalidos"
  by (auto simp: clase_def patron_def caracteres_invalidos_def backslash_def comillas_def)

lemma buscar_none:
  "(\<forall>j. i \<le> j \<and> 0 < j \<and> j < length ls \<longrightarrow> \<not> contains ancla (ls ! j)) \<Longrightarrow> buscar ls i = None"
proof (induction ls i rule: buscar.induct)
  case (1 lineas i)
  show ?case
  proof (cases "i < length lineas")
    case False
    then show ?thesis by (simp add: buscar.simps)
  next
    case True
    show ?thesis
    proof (cases "contains ancla (lineas ! i)")
      case c: True
      with 1 True have "i = 0" by (metis le_refl not_gr_zero)
      with 1 True c show ?thesis by (subst buscar.simps) auto
    next
      case c: False
      with 1 True show ?thesis by (subst buscar.simps) auto
    qed
  qed
qed

lemma buscar_first:
  "i \<le> k \<Longrightarrow> 0 < k \<Longrightarrow> k < length ls \<Longrightarrow> contains ancla (ls ! k) \<Longrightarrow>
   (\<forall>j. i \<le> j \<and> 0 < j \<and> j < k \<longrightarrow> \<not> contains ancla (ls ! j)) \<Longrightarrow>
   buscar ls i = Some (strip (ls ! (k - 1)))"
proof (induction ls i rule: buscar.induct)
  case (1 lineas i)
  show ?case
  proof (cases "i = k")
    case True
    with 1 show ?thesis by (subst buscar.simps) auto
  next
    case False
    with 1 have lt: "i < k" by simp
    show ?thesis
    proof (cases "contains ancla (lineas ! i)")
      case c: True
      with 1 lt have i0: "i = 0" by (metis le_refl not_gr_zero)
      have "buscar lineas (i + 1) = Some (strip (lineas ! (k - 1)))"
        using 1 lt c i0 by (intro "1.IH"(1)) auto
      with 1 lt c i0 show ?thesis by (subst buscar.simps) auto
    next
      case c: False
      have "buscar lineas (i + 1) = Some (strip (lineas ! (k - 1)))"
        using 1 lt c by (intro "1.IH"(2)) auto
      with 1 lt c show ?thesis by (subst buscar.simps) auto
    qed
  qed
qed


section \<open>Coupon lemmas\<close>

lemma render_cases:
  "render env fol a r = Inl e \<Longrightarrow> e = FileNotFoundError \<or> e = AttributeError"
  by (auto simp: render_def Let_def split: if_splits sum.splits elim: value_upper.elims)

lemma generate_coupon_counter:
  "snd (generate_coupon env data f) = (if pasa_validacion data then f + 1 else f)"
  by (auto simp: generate_coupon_def pasa_validacion_def Let_def
           split: sum.splits excepcion.splits)

lemma generate_coupon_consume:
  "consume_folio (fst (generate_coupon env data f)) = pasa_validacion data"
  by (auto simp: generate_coupon_def pasa_validacion_def consume_folio_def Let_def
           split: sum.splits excepcion.splits)

lemma generate_coupon_folio:
  "generate_coupon env data f = (Cupon img fol, f') \<Longrightarrow> fol = zfill (str (f + 1)) 4 \<and> f' = f + 1"
  by (auto simp: generate_coupon_def Let_def split: sum.splits excepcion.splits if_splits)

lemma atender_length: "atender reqs f = (rs, f') \<Longrightarrow> length rs = length reqs"
  by (induction reqs arbitrary: f rs f') (auto split: prod.splits)

lemma atender_counter:
  "atender reqs f = (rs, f') \<Longrightarrow> f' = f + int (length (filter consume_folio rs))"
proof (induction reqs arbitrary: f rs f')
  case Nil
  then show ?case by simp
next
  case (Cons q reqs)
  obtain env data where q: "q = (env, data)" by (cases q)
  obtain r f1 where g: "generate_coupon env data f = (r, f1)" by (cases "generate_coupon env data f")
  obtain rs' f2 where a: "atender reqs f1 = (rs', f2)" by (cases "atender reqs f1")
  from Cons.prems q g a have rs: "rs = r # rs'" and f': "f' = f2" by auto
  from Cons.IH [OF a] have f2: "f2 = f1 + int (length (filter consume_folio rs'))" .
  from g have "f1 = (if pasa_validacion data then f + 1 else f)"
    using generate_coupon_counter [of env data f] by simp
  moreover from g have "consume_folio r = pasa_validacion data"
    using generate_coupon_consume [of env data f] by simp
  ultimately show ?case using rs f' f2 by simp
qed

lemma atender_take:
  "atender reqs f = (rs, f') \<Longrightarrow> \<exists>f''. atender (take n reqs) f = (take n rs, f'')"
proof (induction reqs arbitrary: f rs f' n)
  case Nil
  then show ?case by simp
next
  case (Cons q reqs)
  obtain env data where q: "q = (env, data)" by (cases q)
  obtain r f1 where g: "generate_coupon env data f = (r, f1)" by (cases "generate_coupon env data f")
  obtain rs' f2 where a: "atender reqs f1 = (rs', f2)" by (cases "atender reqs f1")
  from Cons.prems q g a have rs: "rs = r # rs'" by auto
  show ?case
  proof (cases n)
    case 0
    then show ?thesis by simp
  next
    case (Suc m)
    from Cons.IH [OF a, of m] obtain f'' where "atender (take m reqs) f1 = (take m rs', f'')" by blast
    with Suc q g rs show ?thesis by simp
  qed
qed

lemma atender_snoc:
  "atender (reqs @ [(env, data)]) f =
     (let (rs, f1) = atender reqs f; (r, f2) = generate_coupon env data f1 in (rs @ [r], f2))"
  by (induction reqs arbitrary: f) (auto split: prod.splits)

lemma atender_nth:
  assumes "atender reqs f = (rs, f')" and "i < length rs" and "rs ! i = Cupon img fol"
  shows "fol = zfill (str (f + int (length (filter consume_folio (take (Suc i) rs))))) 4"
proof -
  have len: "length rs = length reqs" using assms(1) by (rule atender_length)
  obtain f1 where t: "atender (take i reqs) f = (take i rs, f1)"
    using atender_take [OF assms(1)] by blast
  obtain f2 where t2: "atender (take (Suc i) reqs) f = (take (Suc i) rs, f2)"
    using atender_take [OF assms(1)] by blast
  obtain env data where q: "reqs ! i = (env, data)" by (cases "reqs ! i")
  have "take (Suc i) reqs = take i reqs @ [(env, data)]"
    using assms(2) len q by (simp add: take_Suc_conv_app_nth)
  with t t2 have "(take (Suc i) rs, f2) =
      (let (r, f3) = generate_coupon env data f1 in (take i rs @ [r], f3))"
    by (simp add: atender_snoc)
  moreover have "take (Suc i) rs = take i rs @ [Cupon img fol]"
    using assms(2,3) by (simp add: take_Suc_conv_app_nth)
  ultimately have "generate_coupon env data f1 = (Cupon img fol, f2)"
    by (auto split: prod.splits)
  then have fol: "fol = zfill (str (f1 + 1)) 4" and "f2 = f1 + 1"
    using generate_coupon_folio by blast+
  moreover have "f2 = f + int (length (filter consume_folio (take (Suc i) rs)))"
    using atender_counter [OF t2] .
  ultimately show ?thesis by simp
qed

lemma consume_split:
  "length (filter consume_folio rs) =
     length (filter es_cupon rs) + length (filter es_error_500_del_try rs)"
proof (induction rs)
  case Nil
  then show ?case by simp
next
  case (Cons r rs)
  then show ?case by (cases r) (auto simp: consume_folio_def)
qed

lemma alumni_missing_or_empty_rejected:
  "map_of d ''alumniName'' = None \<or> map_of d ''alumniName'' = Some (JStr []) \<or>
     map_of d ''alumniName'' = Some JNull \<Longrightarrow>
   map_of d ''recipientName'' = None \<or> (\<exists>s. map_of d ''recipientName'' = Some (JStr s)) \<Longrightarrow>
     generate_coupon env (JDict d) f = (Error400, f)"
  by (auto simp: generate_coupon_def)

lemma value_upper_no_str: "\<not> es_str v \<Longrightarrow> value_upper v = Inl AttributeError"
  by (cases v) simp_all

lemma generate_coupon_alumni_no_str:
  assumes "pasa_validacion data" and "coupon_base env"
    and "dict_get data ''alumniName'' JNull = Inr v" and "\<not> es_str v"
  shows "generate_coupon env data f = (Error500_interno AttributeError, f + 1)"
proof -
  from assms(1,3) obtain r rn where
    r: "dict_get data ''recipientName'' (JStr []) = Inr r" "value_strip r = Inr rn" "truthy v"
    by (auto simp: pasa_validacion_def split: sum.splits)
  have "render env fol v rn = Inl AttributeError" for fol
    using assms(2) value_upper_no_str [OF assms(4)] by (simp add: render_def)
  with assms(3) r show ?thesis by (simp add: generate_coupon_def Let_def)
qed

lemma generate_coupon_sin_imagen:
  assumes "pasa_validacion data" and "\<not> coupon_base env"
  shows "generate_coupon env data f = (Error500_archivo, f + 1)"
proof -
  from assms(1) obtain v r rn where
    r: "dict_get data ''alumniName'' JNull = Inr v"
       "dict_get data ''recipientName'' (JStr []) = Inr r" "value_strip r = Inr rn" "truthy v"
    by (auto simp: pasa_validacion_def split: sum.splits)
  have "render env fol v rn = Inl FileNotFoundError" for fol
    using assms(2) by (simp add: render_def)
  with r show ?thesis by (simp add: generate_coupon_def Let_def)
qed



section \<open>Engine lemmas\<close>

lemma rfind_notin: "c \<notin> set p \<Longrightarrow> rfind p c = -1"
  by (induction p) (auto simp: Let_def)

lemma rfind_last: "c \<notin> set q \<Longrightarrow> rfind (p @ c # q) c = int (length p)"
  by (induction p) (auto simp: Let_def rfind_notin)

lemma splitext_loop_eq:
  "splitext_loop p d i =
     (if \<exists>j. i \<le> j \<and> j < d \<and> p ! j \<noteq> CHR ''.'' then (take d p, drop d p) else (p, []))"
proof (induction p d i rule: splitext_loop.induct)
  case (1 p d i)
  show ?case
  proof (cases "i < d")
    case False
    then show ?thesis by (subst splitext_loop.simps) auto
  next
    case True
    show ?thesis
    proof (cases "p ! i \<noteq> CHR ''.''")
      case ne: True
      with True show ?thesis by (subst splitext_loop.simps) auto
    next
      case eq: False
      have "(\<exists>j. i \<le> j \<and> j < d \<and> p ! j \<noteq> CHR ''.'') \<longleftrightarrow> (\<exists>j. i + 1 \<le> j \<and> j < d \<and> p ! j \<noteq> CHR ''.'')"
        using eq by (metis Suc_eq_plus1 Suc_leI le_neq_implies_less Suc_leD)
      with 1 True eq show ?thesis by (subst splitext_loop.simps) auto
    qed
  qed
qed

lemma splitext_pdf:
  assumes "CHR ''/'' \<notin> set b"
  shows "splitext (b @ ''.pdf'') =
     (if \<exists>c\<in>set b. c \<noteq> CHR ''.'' then (b, ''.pdf'') else (b @ ''.pdf'', []))"
proof -
  have sep: "rfind (b @ ''.pdf'') CHR ''/'' = -1"
    using assms by (intro rfind_notin) auto
  have dot: "rfind (b @ ''.pdf'') CHR ''.'' = int (length b)"
    using rfind_last [of "CHR ''.''" "''pdf''" b] by simp
  have "(\<exists>j. 0 \<le> j \<and> j < length b \<and> (b @ ''.pdf'') ! j \<noteq> CHR ''.'') \<longleftrightarrow> (\<exists>c\<in>set b. c \<noteq> CHR ''.'')"
  proof
    assume "\<exists>j. 0 \<le> j \<and> j < length b \<and> (b @ ''.pdf'') ! j \<noteq> CHR ''.''"
    then obtain j where "j < length b" "(b @ ''.pdf'') ! j \<noteq> CHR ''.''" by blast
    then have "b ! j \<in> set b" "b ! j \<noteq> CHR ''.''" by (simp_all add: nth_append)
    then show "\<exists>c\<in>set b. c \<noteq> CHR ''.''" by blast
  next
    assume "\<exists>c\<in>set b. c \<noteq> CHR ''.''"
    then obtain j where "j < length b" "b ! j \<noteq> CHR ''.''" by (auto simp: in_set_conv_nth)
    then have "0 \<le> j \<and> j < length b \<and> (b @ ''.pdf'') ! j \<noteq> CHR ''.''" by (simp add: nth_append)
    then show "\<exists>j. 0 \<le> j \<and> j < length b \<and> (b @ ''.pdf'') ! j \<noteq> CHR ''.''" by blast
  qed
  then show ?thesis
    by (simp add: splitext_def sep dot splitext_loop_eq del: append.simps)
qed

lemma nombre_libre_libre: "\<not> path_exists fs ds (nombre_libre fs ds b e n c)"
  by (induction fs ds b e n c rule: nombre_libre.induct) (subst nombre_libre.simps, auto)

lemma nombre_libre_first: "\<not> path_exists fs ds n \<Longrightarrow> nombre_libre fs ds b e n c = n"
  by (subst nombre_libre.simps) simp

lemma nombre_libre_sufijo:
  "path_exists fs ds n \<Longrightarrow>
     \<exists>k\<ge>c. nombre_libre fs ds b e n c = con_sufijo b e k \<and>
            \<not> path_exists fs ds (con_sufijo b e k) \<and>
            (\<forall>j. c \<le> j \<and> j < k \<longrightarrow> path_exists fs ds (con_sufijo b e j))"
proof (induction fs ds b e n c rule: nombre_libre.induct)
  case (1 fs ds b e n c)
  have step: "nombre_libre fs ds b e n c = nombre_libre fs ds b e (con_sufijo b e c) (c + 1)"
    using "1.prems" by (subst nombre_libre.simps) simp
  show ?case
  proof (cases "path_exists fs ds (con_sufijo b e c)")
    case False
    then have "nombre_libre fs ds b e n c = con_sufijo b e c"
      using step by (simp add: nombre_libre_first)
    with False show ?thesis by (intro exI [of _ c]) auto
  next
    case True
    from "1.IH" [OF "1.prems" True] obtain k where
      k: "c + 1 \<le> k" "nombre_libre fs ds b e (con_sufijo b e c) (c + 1) = con_sufijo b e k"
         "\<not> path_exists fs ds (con_sufijo b e k)"
         "\<forall>j. c + 1 \<le> j \<and> j < k \<longrightarrow> path_exists fs ds (con_sufijo b e j)"
      by blast
    have "\<forall>j. c \<le> j \<and> j < k \<longrightarrow> path_exists fs ds (con_sufijo b e j)"
      using k(4) True by (metis Suc_eq_plus1 Suc_leI le_neq_implies_less)
    with k step show ?thesis by (intro exI [of _ k]) auto
  qed
qed

lemma fst_cambiar_nombre:
  "map fst (cambiar_nombre src dst fs) = map (\<lambda>k. if k = src then dst else k) (map fst fs)"
  by (induction fs) (auto simp: cambiar_nombre_def)

lemma snd_cambiar_nombre: "map snd (cambiar_nombre src dst fs) = map snd fs"
  by (induction fs) (auto simp: cambiar_nombre_def)

lemma map_of_cambiar_nombre_other:
  "m \<noteq> src \<Longrightarrow> m \<noteq> dst \<Longrightarrow> map_of (cambiar_nombre src dst fs) m = map_of fs m"
  by (induction fs) (auto simp: cambiar_nombre_def)

lemma distinct_cambiar_nombre:
  assumes "distinct (map fst fs)" and "dst \<notin> set (map fst fs)"
  shows "distinct (map fst (cambiar_nombre src dst fs))"
proof -
  have "inj_on (\<lambda>k. if k = src then dst else k) (set (map fst fs))"
    using assms(2) by (auto simp: inj_on_def split: if_splits)
  with assms(1) show ?thesis
    unfolding fst_cambiar_nombre
    using distinct_map [of "\<lambda>k. if k = src then dst else k" "map fst fs"] by blast
qed

lemma set_cambiar_nombre:
  "set (map fst (cambiar_nombre src dst fs)) \<subseteq> insert dst (set (map fst fs) - {src})"
  by (induction fs) (auto simp: cambiar_nombre_def split: if_splits)

lemma set_cambiar_nombre_keeps:
  "m \<in> set (map fst fs) \<Longrightarrow> m \<noteq> src \<Longrightarrow> m \<in> set (map fst (cambiar_nombre src dst fs))"
  by (induction fs) (auto simp: cambiar_nombre_def split: if_splits)

lemma os_rename_libre:
  "map_of fs src \<noteq> None \<Longrightarrow> nul \<notin> set dst \<Longrightarrow> \<not> nombre_largo dst \<Longrightarrow>
     \<not> path_exists fs ds dst \<Longrightarrow>
     os_rename fs ds src dst = Inr (cambiar_nombre src dst fs)"
proof -
  assume a: "map_of fs src \<noteq> None" "nul \<notin> set dst" "\<not> nombre_largo dst"
    "\<not> path_exists fs ds dst"
  then have "dst \<notin> set (map fst fs)" "dst \<notin> set ds" by (auto simp: path_exists_def)
  then have "filter (\<lambda>(k, v). k = src \<or> k \<noteq> dst) fs = fs"
    by (intro filter_True) force
  with a \<open>dst \<notin> set ds\<close> show ?thesis by (simp add: os_rename_def)
qed

lemma splitext_loop_concat: "splitext_loop p d i = (b, e) \<Longrightarrow> b @ e = p"
  by (auto simp: splitext_loop_eq split: if_splits)

lemma splitext_concat: "splitext p = (b, e) \<Longrightarrow> b @ e = p"
  by (auto simp: splitext_def Let_def split: if_splits dest: splitext_loop_concat)

lemma digit_not_nul: "d < 10 \<Longrightarrow> digit d \<noteq> nul"
proof
  assume d: "d < 10" and e: "digit d = nul"
  have "code_point nul = 0" by (simp add: nul_def code_point_def)
  with e have "code_point (digit d) = 0" by simp
  with code_point_digit [OF d] show False by simp
qed

lemma str_nat_not_nul: "nul \<notin> set (str_nat n)"
proof (induction n rule: str_nat.induct)
  case (1 n)
  show ?case
  proof (cases "n < 10")
    case True
    then show ?thesis
      using digit_not_nul [of n] by (subst str_nat.simps) auto
  next
    case False
    with 1 show ?thesis
      using digit_not_nul [of "n mod 10"] by (subst str_nat.simps) auto
  qed
qed

lemma con_sufijo_not_nul: "nul \<notin> set (b @ e) \<Longrightarrow> nul \<notin> set (con_sufijo b e k)"
proof -
  have "nul \<noteq> CHR ''_''" by (simp add: nul_def)
  moreover assume "nul \<notin> set (b @ e)"
  ultimately show ?thesis by (simp add: con_sufijo_def str_def str_nat_not_nul)
qed

lemma nombre_libre_not_nul:
  assumes "splitext c = (b, e)" and "path_exists fs ds c \<or> nul \<notin> set c"
  shows "nul \<notin> set (nombre_libre fs ds b e c k)"
proof (cases "path_exists fs ds c")
  case False
  with assms(2) have "nul \<notin> set c" by blast
  with False show ?thesis by (simp add: nombre_libre_first)
next
  case True
  then have "nul \<notin> set c" by (simp add: path_exists_def)
  then have "nul \<notin> set (b @ e)" using splitext_concat [OF assms(1)] by simp
  moreover obtain j where "nombre_libre fs ds b e c k = con_sufijo b e j"
    using nombre_libre_sufijo [OF True] by blast
  ultimately show ?thesis by (simp add: con_sufijo_not_nul)
qed

lemma os_rename_Inr:
  assumes "os_rename fs ds src dst = Inr fs'" and "\<not> path_exists fs ds dst"
  shows "fs' = cambiar_nombre src dst fs \<and> dst \<notin> set (map fst fs) \<and> dst \<notin> set ds \<and>
         map_of fs src \<noteq> None"
proof -
  from assms(1) have n: "nul \<notin> set dst" and l: "\<not> nombre_largo dst"
    and m: "map_of fs src \<noteq> None"
    by (auto simp: os_rename_def split: if_splits)
  with assms(2) have d: "dst \<notin> set (map fst fs)" "dst \<notin> set ds"
    by (auto simp: path_exists_def)
  from os_rename_libre [OF m n l assms(2)] assms(1) have "fs' = cambiar_nombre src dst fs" by simp
  with d m show ?thesis by simp
qed

lemma candidato_Some:
  "candidato doc = Some c \<Longrightarrow>
     \<exists>texto pages nombre. doc = Paginas (Some texto # pages) \<and> texto \<noteq> [] \<and>
        nombre_encontrado texto = Some nombre \<and> nombre \<noteq> [] \<and>
        c = limpiar_nombre_archivo nombre @ ''.pdf''"
  by (auto simp: candidato_def split: documento.splits list.splits option.splits if_splits)

lemma intentar_ya_nombrado:
  assumes "map_of fs n = Some doc" and "candidato doc = Some n"
  shows "intentar dp ds fs n st =
           Inr (fs, anotar (relpath dp n) (imprimir (YaNombrado (relpath dp n)) st))"
proof -
  from candidato_Some [OF assms(2)] obtain texto pages nombre where
    d: "doc = Paginas (Some texto # pages)" "texto \<noteq> []"
       "nombre_encontrado texto = Some nombre" "nombre \<noteq> []"
       "n = limpiar_nombre_archivo nombre @ ''.pdf''" by blast
  have "pdf_open fs n = Inr (Some texto # pages)"
    using assms(1) d(1) by (simp add: pdf_open_def)
  then show ?thesis
    using d(2-5) by (simp add: intentar_def Let_def del: append.simps)
qed

lemma intentar_ilegible:
  "map_of fs n = Some (Ilegible m) \<Longrightarrow> intentar dp ds fs n st = Inl (PdfError m)"
  by (simp add: intentar_def pdf_open_def)

lemma intentar_candidato:
  assumes "map_of fs n = Some doc" and "candidato doc = Some c" and "c \<noteq> n"
  shows "intentar dp ds fs n st =
     (case os_rename fs ds n (nombre_libre fs ds (fst (splitext c)) (snd (splitext c)) c (Suc 0)) of
        Inl e \<Rightarrow> Inl e
      | Inr fs' \<Rightarrow>
          Inr (fs', anotar (relpath dp (nombre_libre fs ds (fst (splitext c)) (snd (splitext c)) c (Suc 0)))
                 (imprimir (Renombrado (relpath dp n)
                    (relpath dp (nombre_libre fs ds (fst (splitext c)) (snd (splitext c)) c (Suc 0)))) st)))"
proof -
  from candidato_Some [OF assms(2)] obtain texto pages nombre where
    d: "doc = Paginas (Some texto # pages)" "texto \<noteq> []"
       "nombre_encontrado texto = Some nombre" "nombre \<noteq> []"
       "c = limpiar_nombre_archivo nombre @ ''.pdf''" by blast
  have "pdf_open fs n = Inr (Some texto # pages)"
    using assms(1) d(1) by (simp add: pdf_open_def)
  moreover have "n \<noteq> limpiar_nombre_archivo nombre @ ''.pdf''"
    using assms(3) d(5) by blast
  ultimately show ?thesis
    using d(2-4) unfolding d(5)
    by (simp add: intentar_def Let_def split_beta del: append.simps)
qed

lemma intentar_sin_candidato:
  assumes "map_of fs n = Some doc" and "candidato doc = None" and "\<forall>m. doc \<noteq> Ilegible m"
  shows "\<exists>msg. intentar dp ds fs n st = Inr (fs, advertir msg st)"
proof -
  from assms(3) obtain ps where d: "doc = Paginas ps" by (cases doc) auto
  then have "pdf_open fs n = Inr ps" using assms(1) by (simp add: pdf_open_def)
  then show ?thesis
    using assms(2) d
    by (auto simp: intentar_def candidato_def Let_def
             split: list.splits option.splits if_splits)
qed

lemma intentar_nul:
  assumes "map_of fs n = Some doc" and "candidato doc = Some c" and "c \<noteq> n" and "nul \<in> set c"
  shows "intentar dp ds fs n st = Inl ValueError"
proof -
  have "\<not> path_exists fs ds c" using assms(4) by (simp add: path_exists_def)
  then have "nombre_libre fs ds (fst (splitext c)) (snd (splitext c)) c (Suc 0) = c"
    by (rule nombre_libre_first)
  moreover have "os_rename fs ds n c = Inl ValueError"
    using assms(4) by (simp add: os_rename_def)
  ultimately show ?thesis
    by (simp add: intentar_candidato [OF assms(1-3)])
qed

lemma intentar_largo:
  assumes "map_of fs n = Some doc" and "candidato doc = Some c" and "c \<noteq> n"
    and "nul \<notin> set c" and "nombre_largo c"
  shows "intentar dp ds fs n st = Inl OSError"
proof -
  have "\<not> path_exists fs ds c" using assms(5) by (simp add: path_exists_def)
  then have "nombre_libre fs ds (fst (splitext c)) (snd (splitext c)) c (Suc 0) = c"
    by (rule nombre_libre_first)
  moreover have "os_rename fs ds n c = Inl OSError"
    using assms(4,5) by (simp add: os_rename_def)
  ultimately show ?thesis
    by (simp add: intentar_candidato [OF assms(1-3)])
qed

lemma intentar_renombra:
  fixes fs :: archivos and ds :: "string list"
  assumes "map_of fs n = Some doc" and "candidato doc = Some c" and "c \<noteq> n" and "nul \<notin> set c"
  defines "final \<equiv> nombre_libre fs ds (fst (splitext c)) (snd (splitext c)) c (Suc 0)"
  shows "\<not> path_exists fs ds final" and "nul \<notin> set final"
    and "\<not> nombre_largo final \<Longrightarrow> intentar dp ds fs n st =
           Inr (cambiar_nombre n final fs,
                anotar (relpath dp final) (imprimir (Renombrado (relpath dp n) (relpath dp final)) st))"
    and "nombre_largo final \<Longrightarrow> intentar dp ds fs n st = Inl OSError"
proof -
  show free: "\<not> path_exists fs ds final" unfolding final_def by (rule nombre_libre_libre)
  show nn: "nul \<notin> set final"
    unfolding final_def using assms(4) by (intro nombre_libre_not_nul) auto
  show "intentar dp ds fs n st =
           Inr (cambiar_nombre n final fs,
                anotar (relpath dp final) (imprimir (Renombrado (relpath dp n) (relpath dp final)) st))"
    if "\<not> nombre_largo final"
  proof -
    have "os_rename fs ds n final = Inr (cambiar_nombre n final fs)"
      using assms(1) nn that free by (intro os_rename_libre) auto
    then show ?thesis
      unfolding final_def by (simp add: intentar_candidato [OF assms(1-3)])
  qed
  show "intentar dp ds fs n st = Inl OSError" if "nombre_largo final"
  proof -
    have "os_rename fs ds n final = Inl OSError"
      using nn that by (simp add: os_rename_def)
    then show ?thesis
      unfolding final_def by (simp add: intentar_candidato [OF assms(1-3)])
  qed
qed

lemma advertir_campos [simp]:
  "pdf_procesados (advertir m st) = pdf_procesados st"
  "renombrados_info (advertir m st) = renombrados_info st"
  "advertencias_errores (advertir m st) = advertencias_errores st @ [m]"
  "impreso (advertir m st) = impreso st @ [m]"
  by (simp_all add: advertir_def imprimir_def)

lemma imprimir_campos [simp]:
  "pdf_procesados (imprimir m st) = pdf_procesados st"
  "renombrados_info (imprimir m st) = renombrados_info st"
  "advertencias_errores (imprimir m st) = advertencias_errores st"
  "impreso (imprimir m st) = impreso st @ [m]"
  by (simp_all add: imprimir_def)

lemma anotar_campos [simp]:
  "pdf_procesados (anotar r st) = pdf_procesados st"
  "renombrados_info (anotar r st) = renombrados_info st @ [r]"
  "advertencias_errores (anotar r st) = advertencias_errores st"
  "impreso (anotar r st) = impreso st"
  by (simp_all add: anotar_def)

text \<open>What one file can do to the directory and to the state.\<close>

lemma intentar_marco:
  assumes "intentar dp ds fs n st = Inr (fs', st')"
  shows "(fs' = fs \<or> (\<exists>dst. dst \<notin> set (map fst fs) \<and> dst \<notin> set ds \<and> map_of fs n \<noteq> None \<and>
                         fs' = cambiar_nombre n dst fs)) \<and>
         pdf_procesados st' = pdf_procesados st \<and>
         length (renombrados_info st') + length (advertencias_errores st') =
           length (renombrados_info st) + length (advertencias_errores st) + 1 \<and>
         (\<exists>ms. advertencias_errores st' = advertencias_errores st @ ms)"
proof (cases "map_of fs n")
  case None
  then have "intentar dp ds fs n st = Inl FileNotFoundError"
    by (simp add: intentar_def pdf_open_def)
  with assms show ?thesis by simp
next
  case (Some doc)
  show ?thesis
  proof (cases "candidato doc")
    case None
    show ?thesis
    proof (cases "\<exists>m. doc = Ilegible m")
      case True
      with Some assms show ?thesis by (auto simp: intentar_ilegible)
    next
      case False
      with intentar_sin_candidato [OF Some None, of dp ds st] assms show ?thesis by auto
    qed
  next
    case c: (Some c)
    show ?thesis
    proof (cases "c = n")
      case True
      with intentar_ya_nombrado [OF Some, of dp ds st] c assms show ?thesis by auto
    next
      case False
      let ?final = "nombre_libre fs ds (fst (splitext c)) (snd (splitext c)) c (Suc 0)"
      from assms obtain r: "os_rename fs ds n ?final = Inr fs'"
        and st': "st' = anotar (relpath dp ?final)
                  (imprimir (Renombrado (relpath dp n) (relpath dp ?final)) st)"
        unfolding intentar_candidato [OF Some c False] by (auto split: sum.splits)
      from os_rename_Inr [OF r nombre_libre_libre] st' show ?thesis by auto
    qed
  qed
qed

lemma procesar_pdf_marco:
  assumes "procesar_pdf dp ds fs n st = (fs', st')"
  shows "(fs' = fs \<or> (\<exists>dst. dst \<notin> set (map fst fs) \<and> dst \<notin> set ds \<and> map_of fs n \<noteq> None \<and>
                         fs' = cambiar_nombre n dst fs)) \<and>
         pdf_procesados st' = pdf_procesados st + 1 \<and>
         length (renombrados_info st') + length (advertencias_errores st') =
           length (renombrados_info st) + length (advertencias_errores st) + 1 \<and>
         (\<exists>ms. advertencias_errores st' = advertencias_errores st @ ms)"
proof (cases "intentar dp ds fs n (st\<lparr>pdf_procesados := pdf_procesados st + 1\<rparr>)")
  case (Inl e)
  with assms show ?thesis by (auto simp: procesar_pdf_def Let_def)
next
  case (Inr r)
  with assms have "intentar dp ds fs n (st\<lparr>pdf_procesados := pdf_procesados st + 1\<rparr>) = Inr (fs', st')"
    by (simp add: procesar_pdf_def Let_def)
  from intentar_marco [OF this] show ?thesis by simp
qed

lemma procesar_pdf_falla:
  assumes "map_of fs n = Some doc" and "falla n doc = Some e"
  shows "procesar_pdf dp ds fs n st =
           (fs, advertir (ErrorAlProcesar (relpath dp n) e)
                  (st\<lparr>pdf_procesados := pdf_procesados st + 1\<rparr>))"
proof (cases doc)
  case (Ilegible m)
  with assms show ?thesis
    by (simp add: procesar_pdf_def Let_def intentar_ilegible falla_def)
next
  case (Paginas ps)
  with assms(2) obtain c where c: "candidato doc = Some c" "c \<noteq> n"
    and "(nul \<in> set c \<and> e = ValueError) \<or> (nul \<notin> set c \<and> nombre_largo c \<and> e = OSError)"
    by (auto simp: falla_def split: option.splits if_splits)
  then show ?thesis
    using intentar_nul [OF assms(1) c] intentar_largo [OF assms(1) c]
    by (auto simp: procesar_pdf_def Let_def)
qed

lemma procesar_pdf_ya_nombrado:
  assumes "map_of fs n = Some doc" and "candidato doc = Some n"
  shows "procesar_pdf dp ds fs n st =
           (fs, anotar (relpath dp n) (imprimir (YaNombrado (relpath dp n))
                  (st\<lparr>pdf_procesados := pdf_procesados st + 1\<rparr>)))"
  by (simp add: procesar_pdf_def Let_def intentar_ya_nombrado [OF assms])

lemma procesar_archivos_cuenta:
  "procesar_archivos dp ds fs ns st = (fs', st') \<Longrightarrow>
     pdf_procesados st' = pdf_procesados st + length (filter es_pdf ns) \<and>
     length (renombrados_info st') + length (advertencias_errores st') =
       length (renombrados_info st) + length (advertencias_errores st) + length (filter es_pdf ns) \<and>
     (\<exists>ms. advertencias_errores st' = advertencias_errores st @ ms)"
proof (induction ns arbitrary: fs st)
  case Nil
  then show ?case by simp
next
  case (Cons m ns)
  show ?case
  proof (cases "es_pdf m")
    case False
    with Cons show ?thesis by simp
  next
    case True
    obtain fs1 st1 where p: "procesar_pdf dp ds fs m st = (fs1, st1)"
      by (cases "procesar_pdf dp ds fs m st")
    with Cons.prems True have r: "procesar_archivos dp ds fs1 ns st1 = (fs', st')" by simp
    from procesar_pdf_marco [OF p] Cons.IH [OF r] True show ?thesis by auto
  qed
qed

lemma procesar_archivos_errores:
  assumes "procesar_archivos dp ds fs ns st = (fs', st')"
    and "distinct ns" and "set ns \<subseteq> set (map fst fs)"
    and "n \<in> set ns" and "es_pdf n" and "map_of fs n = Some doc" and "falla n doc = Some e"
  shows "ErrorAlProcesar (relpath dp n) e \<in> set (advertencias_errores st')"
  using assms
proof (induction ns arbitrary: fs st)
  case Nil
  then show ?case by simp
next
  case (Cons m ns)
  show ?case
  proof (cases "n = m")
    case True
    let ?st1 = "advertir (ErrorAlProcesar (relpath dp n) e)
                  (st\<lparr>pdf_procesados := pdf_procesados st + 1\<rparr>)"
    have "procesar_pdf dp ds fs m st = (fs, ?st1)"
      using procesar_pdf_falla [OF Cons.prems(6,7)] True by simp
    with Cons.prems(1,5) True have "procesar_archivos dp ds fs ns ?st1 = (fs', st')" by simp
    from procesar_archivos_cuenta [OF this] obtain ms where
      "advertencias_errores st' = advertencias_errores ?st1 @ ms" by blast
    then show ?thesis by simp
  next
    case False
    with Cons.prems have n: "n \<in> set ns" by simp
    from Cons.prems have d: "distinct ns" "m \<notin> set ns" by simp_all
    show ?thesis
    proof (cases "es_pdf m")
      case nopdf: False
      with Cons.prems have "procesar_archivos dp ds fs ns st = (fs', st')" by simp
      from Cons.IH [OF this d(1) _ n Cons.prems(5,6,7)] Cons.prems(3) show ?thesis by simp
    next
      case True
      obtain fs1 st1 where p: "procesar_pdf dp ds fs m st = (fs1, st1)"
        by (cases "procesar_pdf dp ds fs m st")
      with Cons.prems True have r: "procesar_archivos dp ds fs1 ns st1 = (fs', st')" by simp
      from procesar_pdf_marco [OF p] have
        m: "fs1 = fs \<or> (\<exists>dst. dst \<notin> set (map fst fs) \<and> dst \<notin> set ds \<and>
               map_of fs m \<noteq> None \<and> fs1 = cambiar_nombre m dst fs)" by blast
      have sub: "set ns \<subseteq> set (map fst fs1)"
      proof
        fix x assume x: "x \<in> set ns"
        with Cons.prems(3) have "x \<in> set (map fst fs)" by auto
        moreover from x d(2) have "x \<noteq> m" by blast
        ultimately show "x \<in> set (map fst fs1)"
          using m set_cambiar_nombre_keeps by blast
      qed
      have "map_of fs1 n = Some doc"
      proof -
        from n Cons.prems(3) have "n \<in> set (map fst fs)" by auto
        then show ?thesis
          using m False Cons.prems(6) map_of_cambiar_nombre_other [of n m _ fs] by metis
      qed
      from Cons.IH [OF r d(1) sub n Cons.prems(5) this Cons.prems(7)] show ?thesis .
    qed
  qed
qed

lemma pdfs_Carpeta:
  "pdfs (Carpeta fs cs) =
     map (\<lambda>(n, doc). ([], n, doc)) (filter (\<lambda>(n, doc). es_pdf n) fs) @ pdfs_carpetas cs"
  by (simp add: pdfs_def pdfs_carpetas_def filter_map comp_def split_def)

lemma pdfs_carpetas_Nil [simp]: "pdfs_carpetas [] = []"
  by (simp add: pdfs_carpetas_def)

lemma pdfs_carpetas_Cons:
  "pdfs_carpetas ((d, t) # cs) =
     map (\<lambda>(dirpath, n, doc). (d # dirpath, n, doc)) (pdfs t) @ pdfs_carpetas cs"
  by (simp add: pdfs_def pdfs_carpetas_def filter_map comp_def split_def)

lemma length_filter_fst:
  "length (filter (\<lambda>(n, doc). es_pdf n) fs) = length (filter es_pdf (map fst fs))"
  by (induction fs) auto

lemma zip_walk_pdfs:
  "zip_walk dp t = map (\<lambda>(dirpath, n, doc). (relpath (dp @ dirpath) n, doc)) (pdfs t)"
  "zip_carpetas dp cs = map (\<lambda>(dirpath, n, doc). (relpath (dp @ dirpath) n, doc)) (pdfs_carpetas cs)"
proof (induction dp t and dp cs rule: zip_walk_zip_carpetas.induct)
  case (1 dirpath fs cs)
  then show ?case by (simp add: pdfs_Carpeta comp_def split_def)
next
  case (2 dirpath)
  then show ?case by simp
next
  case (3 dirpath d t cs)
  then show ?case by (simp add: pdfs_carpetas_Cons comp_def split_def)
qed

lemma walk_cuenta:
  "walk dp t st = (t', st') \<Longrightarrow>
     pdf_procesados st' = pdf_procesados st + length (pdfs t) \<and>
     length (renombrados_info st') + length (advertencias_errores st') =
       length (renombrados_info st) + length (advertencias_errores st) + length (pdfs t) \<and>
     (\<exists>ms. advertencias_errores st' = advertencias_errores st @ ms)"
  "walk_carpetas dp cs st = (cs', st') \<Longrightarrow>
     pdf_procesados st' = pdf_procesados st + length (pdfs_carpetas cs) \<and>
     length (renombrados_info st') + length (advertencias_errores st') =
       length (renombrados_info st) + length (advertencias_errores st) + length (pdfs_carpetas cs) \<and>
     (\<exists>ms. advertencias_errores st' = advertencias_errores st @ ms)"
proof (induction dp t st and dp cs st arbitrary: t' st' and cs' st' rule: walk_walk_carpetas.induct)
  case (1 dirpath fs cs st)
  obtain fs1 st1 where f: "procesar_archivos dirpath (map fst cs) fs (map fst fs) st = (fs1, st1)"
    by (cases "procesar_archivos dirpath (map fst cs) fs (map fst fs) st")
  obtain cs1 st2 where c: "walk_carpetas dirpath cs st1 = (cs1, st2)"
    by (cases "walk_carpetas dirpath cs st1")
  from "1.prems" f c have e: "st' = st2" by simp
  from procesar_archivos_cuenta [OF f] "1.IH" [OF f [symmetric] c] e
  show ?case by (auto simp: pdfs_Carpeta length_filter_fst)
next
  case (2 dirpath st)
  then show ?case by simp
next
  case (3 dirpath d t cs st)
  obtain t1 st1 where w: "walk (dirpath @ [d]) t st = (t1, st1)"
    by (cases "walk (dirpath @ [d]) t st")
  obtain cs1 st2 where c: "walk_carpetas dirpath cs st1 = (cs1, st2)"
    by (cases "walk_carpetas dirpath cs st1")
  from "3.prems" w c have e: "st' = st2" by simp
  from "3.IH"(1) [OF w] "3.IH"(2) [OF w [symmetric] c] e
  show ?case by (auto simp: pdfs_carpetas_Cons)
qed

lemma walk_errores:
  "walk dp t st = (t', st') \<Longrightarrow> bien_formado t \<Longrightarrow> (dp0, n, doc) \<in> set (pdfs t) \<Longrightarrow>
     falla n doc = Some e \<Longrightarrow>
     ErrorAlProcesar (relpath (dp @ dp0) n) e \<in> set (advertencias_errores st')"
  "walk_carpetas dp cs st = (cs', st') \<Longrightarrow> bien_formadas cs \<Longrightarrow>
     (dp0, n, doc) \<in> set (pdfs_carpetas cs) \<Longrightarrow> falla n doc = Some e \<Longrightarrow>
     ErrorAlProcesar (relpath (dp @ dp0) n) e \<in> set (advertencias_errores st')"
proof (induction dp t st and dp cs st arbitrary: t' st' dp0 and cs' st' dp0
       rule: walk_walk_carpetas.induct)
  case (1 dirpath fs cs st)
  obtain fs1 st1 where f: "procesar_archivos dirpath (map fst cs) fs (map fst fs) st = (fs1, st1)"
    by (cases "procesar_archivos dirpath (map fst cs) fs (map fst fs) st")
  obtain cs1 st2 where c: "walk_carpetas dirpath cs st1 = (cs1, st2)"
    by (cases "walk_carpetas dirpath cs st1")
  from "1.prems"(1) f c have e: "st' = st2" by simp
  from "1.prems"(2) have d: "distinct (map fst fs)" and wf: "bien_formadas cs" by simp_all
  from "1.prems"(3) consider
      (here) "dp0 = []" "(n, doc) \<in> set fs" "es_pdf n"
    | (below) "(dp0, n, doc) \<in> set (pdfs_carpetas cs)"
    by (auto simp: pdfs_Carpeta)
  then show ?case
  proof cases
    case here
    have m: "map_of fs n = Some doc" using d here(2) by simp
    have "n \<in> set (map fst fs)" using here(2) by force
    from procesar_archivos_errores [OF f d _ this here(3) m "1.prems"(4)]
    have "ErrorAlProcesar (relpath dirpath n) e \<in> set (advertencias_errores st1)" by simp
    moreover from walk_cuenta(2) [OF c] obtain ms where
      "advertencias_errores st2 = advertencias_errores st1 @ ms" by blast
    ultimately show ?thesis using e here(1) by simp
  next
    case below
    from "1.IH" [OF f [symmetric] c wf below "1.prems"(4)] e show ?thesis by simp
  qed
next
  case (2 dirpath st)
  then show ?case by simp
next
  case (3 dirpath d t cs st)
  obtain t1 st1 where w: "walk (dirpath @ [d]) t st = (t1, st1)"
    by (cases "walk (dirpath @ [d]) t st")
  obtain cs1 st2 where c: "walk_carpetas dirpath cs st1 = (cs1, st2)"
    by (cases "walk_carpetas dirpath cs st1")
  from "3.prems"(1) w c have e: "st' = st2" by simp
  from "3.prems"(2) have wf: "bien_formado t" "bien_formadas cs" by simp_all
  from "3.prems"(3) consider
      (first) dp1 where "dp0 = d # dp1" "(dp1, n, doc) \<in> set (pdfs t)"
    | (rest) "(dp0, n, doc) \<in> set (pdfs_carpetas cs)"
    by (auto simp: pdfs_carpetas_Cons)
  then show ?case
  proof cases
    case first
    from "3.IH"(1) [OF w wf(1) first(2) "3.prems"(4)]
    have "ErrorAlProcesar (relpath (dirpath @ dp0) n) e \<in> set (advertencias_errores st1)"
      using first(1) by simp
    moreover from walk_cuenta(2) [OF c] obtain ms where
      "advertencias_errores st2 = advertencias_errores st1 @ ms" by blast
    ultimately show ?thesis using e by simp
  next
    case rest
    from "3.IH"(2) [OF w [symmetric] c wf(2) rest "3.prems"(4)] e show ?thesis by simp
  qed
qed

lemma procesar_archivos_asentado:
  "list_all (en_su_nombre fs) (filter es_pdf ns) \<Longrightarrow>
     procesar_archivos dp ds fs ns st =
       (fs, st\<lparr>pdf_procesados := pdf_procesados st + length (filter es_pdf ns),
              renombrados_info := renombrados_info st @ map (relpath dp) (filter es_pdf ns),
              impreso := impreso st @ map (\<lambda>n. YaNombrado (relpath dp n)) (filter es_pdf ns)\<rparr>)"
proof (induction ns arbitrary: st)
  case Nil
  then show ?case by simp
next
  case (Cons m ns)
  show ?case
  proof (cases "es_pdf m")
    case False
    with Cons show ?thesis by simp
  next
    case True
    with Cons.prems obtain doc where d: "map_of fs m = Some doc" "candidato doc = Some m"
      by (auto simp: en_su_nombre_def split: option.splits)
    from Cons.prems True have r: "list_all (en_su_nombre fs) (filter es_pdf ns)" by simp
    show ?thesis
      using True
      by (simp add: procesar_pdf_ya_nombrado [OF d] Cons.IH [OF r] anotar_def imprimir_def)
  qed
qed

lemma fst_zip_walk_Carpeta:
  "map fst (zip_walk dp (Carpeta fs cs)) =
     map (relpath dp) (filter es_pdf (map fst fs)) @ map fst (zip_carpetas dp cs)"
  by (induction fs) auto

lemma length_zip_walk:
  "length (zip_walk dp t) = length (pdfs t)"
  "length (zip_carpetas dp cs) = length (pdfs_carpetas cs)"
  by (simp_all add: zip_walk_pdfs)

lemma walk_asentado:
  "asentado t \<Longrightarrow>
     walk dp t st =
       (t, st\<lparr>pdf_procesados := pdf_procesados st + length (pdfs t),
              renombrados_info := renombrados_info st @ map fst (zip_walk dp t),
              impreso := impreso st @ map YaNombrado (map fst (zip_walk dp t))\<rparr>)"
  "asentadas cs \<Longrightarrow>
     walk_carpetas dp cs st =
       (cs, st\<lparr>pdf_procesados := pdf_procesados st + length (pdfs_carpetas cs),
               renombrados_info := renombrados_info st @ map fst (zip_carpetas dp cs),
               impreso := impreso st @ map YaNombrado (map fst (zip_carpetas dp cs))\<rparr>)"
proof (induction dp t st and dp cs st rule: walk_walk_carpetas.induct)
  case (1 dirpath fs cs st)
  from "1.prems" have a: "list_all (en_su_nombre fs) (filter es_pdf (map fst fs))"
    and b: "asentadas cs" by simp_all
  note f = procesar_archivos_asentado [OF a, of dirpath "map fst cs" st]
  from "1.IH" [OF f [symmetric] b] f show ?case
    by (simp add: fst_zip_walk_Carpeta pdfs_Carpeta length_filter_fst comp_def del: zip_walk.simps)
next
  case (2 dirpath st)
  then show ?case by simp
next
  case (3 dirpath d t cs st)
  from "3.prems" have a: "asentado t" and b: "asentadas cs" by simp_all
  note w = "3.IH"(1) [OF a]
  from "3.IH"(2) [OF w [symmetric] b] w show ?case
    by (simp add: pdfs_carpetas_Cons)
qed

lemma intentar_falla:
  assumes "map_of fs n = Some doc" and "falla n doc = Some e"
  shows "intentar dp ds fs n st = Inl e"
proof (cases doc)
  case (Ilegible m)
  with assms show ?thesis by (simp add: intentar_ilegible falla_def)
next
  case (Paginas ps)
  with assms(2) obtain c where c: "candidato doc = Some c" "c \<noteq> n"
    and "(nul \<in> set c \<and> e = ValueError) \<or> (nul \<notin> set c \<and> nombre_largo c \<and> e = OSError)"
    by (auto simp: falla_def split: option.splits if_splits)
  then show ?thesis
    using intentar_nul [OF assms(1) c] intentar_largo [OF assms(1) c] by auto
qed

text \<open>
  Apart from \<open>falla\<close>, the \<open>try\<close> raises for a file of the directory only when the
  collision loop ends at a name that is too long.
\<close>

lemma intentar_raises:
  assumes "map_of fs n = Some doc" and "intentar dp ds fs n st = Inl e"
  shows "falla n doc = Some e \<or>
         (e = OSError \<and> (\<exists>c. candidato doc = Some c \<and> path_exists fs ds c \<and>
            nombre_largo (nombre_libre fs ds (fst (splitext c)) (snd (splitext c)) c (Suc 0))))"
proof (cases "falla n doc")
  case (Some e')
  with intentar_falla [OF assms(1) Some, of dp ds st] assms(2) show ?thesis by simp
next
  case None
  then obtain ps where d: "doc = Paginas ps" by (cases doc) (auto simp: falla_def)
  show ?thesis
  proof (cases "candidato doc")
    case n: None
    from intentar_sin_candidato [OF assms(1) n, of dp ds st] d assms(2) show ?thesis by auto
  next
    case (Some c)
    show ?thesis
    proof (cases "c = n")
      case True
      with intentar_ya_nombrado [OF assms(1), of dp ds st] Some assms(2) show ?thesis by auto
    next
      case False
      with None d Some have nn: "nul \<notin> set c" and nl: "\<not> nombre_largo c"
        by (auto simp: falla_def split: if_splits)
      let ?final = "nombre_libre fs ds (fst (splitext c)) (snd (splitext c)) c (Suc 0)"
      have l: "nombre_largo ?final" and eo: "e = OSError"
        using intentar_renombra(3,4) [OF assms(1) Some False nn, where dp = dp and st = st and ds = ds] assms(2)
        by (cases "nombre_largo ?final"; simp)+
      have "path_exists fs ds c"
      proof (rule ccontr)
        assume "\<not> path_exists fs ds c"
        then have "?final = c" by (rule nombre_libre_first)
        with l nl show False by simp
      qed
      with Some l eo show ?thesis by blast
    qed
  qed
qed

lemma renombrar_estado:
  "walk [] t estado_inicial = (t', st) \<Longrightarrow>
     renombrar_pdfs_en_directorio t =
       (t', imprimir Finalizado (if pdf_procesados st = 0 then advertir SinPdfs st else st))"
  by (simp add: renombrar_pdfs_en_directorio_def)

lemma renombrar_errores:
  assumes "bien_formado t" and "(dp0, n, doc) \<in> set (pdfs t)" and "falla n doc = Some e"
  shows "ErrorAlProcesar (relpath dp0 n) e \<in>
           set (advertencias_errores (snd (renombrar_pdfs_en_directorio t)))"
proof -
  obtain t' st where w: "walk [] t estado_inicial = (t', st)"
    by (cases "walk [] t estado_inicial")
  from walk_errores(1) [OF w assms] have "ErrorAlProcesar (relpath dp0 n) e \<in> set (advertencias_errores st)"
    by simp
  then show ?thesis by (simp add: renombrar_estado [OF w])
qed

lemma renombrar_cuenta:
  "pdf_procesados (snd (renombrar_pdfs_en_directorio t)) = length (pdfs t)"
  "length (renombrados_info (snd (renombrar_pdfs_en_directorio t))) +
   length (advertencias_errores (snd (renombrar_pdfs_en_directorio t))) =
     (if pdfs t = [] then 1 else length (pdfs t))"
proof -
  obtain t' st where w: "walk [] t estado_inicial = (t', st)"
    by (cases "walk [] t estado_inicial")
  from walk_cuenta(1) [OF w] have
    c: "pdf_procesados st = length (pdfs t)"
       "length (renombrados_info st) + length (advertencias_errores st) = length (pdfs t)"
    by (simp_all add: estado_inicial_def)
  show "pdf_procesados (snd (renombrar_pdfs_en_directorio t)) = length (pdfs t)"
    using c by (simp add: renombrar_estado [OF w])
  show "length (renombrados_info (snd (renombrar_pdfs_en_directorio t))) +
   length (advertencias_errores (snd (renombrar_pdfs_en_directorio t))) =
     (if pdfs t = [] then 1 else length (pdfs t))"
    using c by (simp add: renombrar_estado [OF w])
qed

lemma renombrar_asentado:
  assumes "asentado t"
  shows "renombrar_pdfs_en_directorio t =
     (t, \<lparr>pdf_procesados = length (pdfs t),
          renombrados_info = map fst (zip_walk [] t),
          advertencias_errores = (if pdfs t = [] then [SinPdfs] else []),
          impreso = Iniciando # map YaNombrado (map fst (zip_walk [] t)) @
                    (if pdfs t = [] then [SinPdfs] else []) @ [Finalizado]\<rparr>)"
  using walk_asentado(1) [OF assms, of "[]" estado_inicial]
  by (simp add: renombrar_pdfs_en_directorio_def estado_inicial_def advertir_def imprimir_def)

text \<open>No document is lost or moved to another directory: a run changes names only.\<close>

lemma procesar_archivos_conserva:
  "procesar_archivos dp ds fs ns st = (fs', st') \<Longrightarrow> map snd fs' = map snd fs"
proof (induction ns arbitrary: fs st)
  case Nil
  then show ?case by simp
next
  case (Cons m ns)
  show ?case
  proof (cases "es_pdf m")
    case False
    with Cons show ?thesis by simp
  next
    case True
    obtain fs1 st1 where p: "procesar_pdf dp ds fs m st = (fs1, st1)"
      by (cases "procesar_pdf dp ds fs m st")
    with Cons.prems True have r: "procesar_archivos dp ds fs1 ns st1 = (fs', st')" by simp
    from procesar_pdf_marco [OF p] have "map snd fs1 = map snd fs"
      by (auto simp: snd_cambiar_nombre)
    with Cons.IH [OF r] show ?thesis by simp
  qed
qed

lemma walk_conserva:
  "walk dp t st = (t', st') \<Longrightarrow>
     map (\<lambda>(d, n, doc). (d, doc)) (ficheros t') = map (\<lambda>(d, n, doc). (d, doc)) (ficheros t)"
  "walk_carpetas dp cs st = (cs', st') \<Longrightarrow>
     map (\<lambda>(d, n, doc). (d, doc)) (ficheros_carpetas cs') =
       map (\<lambda>(d, n, doc). (d, doc)) (ficheros_carpetas cs)"
proof (induction dp t st and dp cs st arbitrary: t' st' and cs' st' rule: walk_walk_carpetas.induct)
  case (1 dirpath fs cs st)
  obtain fs1 st1 where f: "procesar_archivos dirpath (map fst cs) fs (map fst fs) st = (fs1, st1)"
    by (cases "procesar_archivos dirpath (map fst cs) fs (map fst fs) st")
  obtain cs1 st2 where c: "walk_carpetas dirpath cs st1 = (cs1, st2)"
    by (cases "walk_carpetas dirpath cs st1")
  from "1.prems" f c have e: "t' = Carpeta fs1 cs1" by simp
  have "map (\<lambda>(n, doc). ([] :: string list, doc)) fs1 = map (\<lambda>doc. ([], doc)) (map snd fs1)"
    by (simp add: comp_def split_def)
  also have "\<dots> = map (\<lambda>doc. ([], doc)) (map snd fs)"
    using procesar_archivos_conserva [OF f] by simp
  also have "\<dots> = map (\<lambda>(n, doc). ([], doc)) fs"
    by (simp add: comp_def split_def)
  finally show ?case
    using "1.IH" [OF f [symmetric] c] e by (simp add: comp_def split_def)
next
  case (2 dirpath st)
  then show ?case by auto
next
  case (3 dirpath d t cs st)
  obtain t1 st1 where w: "walk (dirpath @ [d]) t st = (t1, st1)"
    by (cases "walk (dirpath @ [d]) t st")
  obtain cs1 st2 where c: "walk_carpetas dirpath cs st1 = (cs1, st2)"
    by (cases "walk_carpetas dirpath cs st1")
  from "3.prems" w c have e: "cs' = (d, t1) # cs1" by simp
  have "map (\<lambda>(dp, n, doc). (d # dp, doc)) (ficheros t1) =
        map (\<lambda>(dp, doc). (d # dp, doc)) (map (\<lambda>(dp, n, doc). (dp, doc)) (ficheros t1))"
    by (simp add: comp_def split_def)
  also have "\<dots> = map (\<lambda>(dp, doc). (d # dp, doc)) (map (\<lambda>(dp, n, doc). (dp, doc)) (ficheros t))"
    using "3.IH"(1) [OF w] by simp
  also have "\<dots> = map (\<lambda>(dp, n, doc). (d # dp, doc)) (ficheros t)"
    by (simp add: comp_def split_def)
  finally show ?case
    using "3.IH"(2) [OF w [symmetric] c] e by (simp add: comp_def split_def)
qed

lemma renombrar_conserva:
  "map (\<lambda>(d, n, doc). (d, doc)) (ficheros (fst (renombrar_pdfs_en_directorio t))) =
     map (\<lambda>(d, n, doc). (d, doc)) (ficheros t)"
proof -
  obtain t' st where w: "walk [] t estado_inicial = (t', st)"
    by (cases "walk [] t estado_inicial")
  from walk_conserva(1) [OF w] show ?thesis by (simp add: renombrar_estado [OF w])
qed

lemma limpiar_sin_barra: "CHR ''/'' \<notin> set (limpiar_nombre_archivo s)"
  by (simp add: limpiar_nombre_archivo_def re_sub_vacio_filter clase_patron caracteres_invalidos_def)

lemma collision_policy:
  assumes "map_of fs n = Some doc" and "candidato doc = Some (b @ ''.pdf'')"
    and "\<exists>c\<in>set b. c \<noteq> CHR ''.''" and "b @ ''.pdf'' \<noteq> n"
    and "path_exists fs ds (b @ ''.pdf'')"
  shows "\<exists>k\<ge>1.
      (\<forall>j. 1 \<le> j \<and> j < k \<longrightarrow> path_exists fs ds (b @ ''_'' @ str (int j) @ ''.pdf'')) \<and>
      \<not> path_exists fs ds (b @ ''_'' @ str (int k) @ ''.pdf'') \<and>
      procesar_pdf dp ds fs n st =
        (if nombre_largo (b @ ''_'' @ str (int k) @ ''.pdf'')
         then (fs, advertir (ErrorAlProcesar (relpath dp n) OSError)
                     (st\<lparr>pdf_procesados := pdf_procesados st + 1\<rparr>))
         else (cambiar_nombre n (b @ ''_'' @ str (int k) @ ''.pdf'') fs,
               anotar (relpath dp (b @ ''_'' @ str (int k) @ ''.pdf''))
                 (imprimir (Renombrado (relpath dp n)
                              (relpath dp (b @ ''_'' @ str (int k) @ ''.pdf'')))
                    (st\<lparr>pdf_procesados := pdf_procesados st + 1\<rparr>))))"
proof -
  let ?c = "b @ ''.pdf''"
  let ?st = "st\<lparr>pdf_procesados := pdf_procesados st + 1\<rparr>"
  from candidato_Some [OF assms(2)] obtain nombre where "?c = limpiar_nombre_archivo nombre @ ''.pdf''"
    by blast
  then have "b = limpiar_nombre_archivo nombre" by simp
  then have "CHR ''/'' \<notin> set b" by (simp add: limpiar_sin_barra)
  then have sp: "splitext ?c = (b, ''.pdf'')" using assms(3) by (simp add: splitext_pdf)
  have nn: "nul \<notin> set ?c" using assms(5) by (simp add: path_exists_def)
  from nombre_libre_sufijo [OF assms(5), of "Suc 0" b "''.pdf''"] obtain k where
    k: "Suc 0 \<le> k" "nombre_libre fs ds b ''.pdf'' ?c (Suc 0) = con_sufijo b ''.pdf'' k"
       "\<not> path_exists fs ds (con_sufijo b ''.pdf'' k)"
       "\<forall>j. Suc 0 \<le> j \<and> j < k \<longrightarrow> path_exists fs ds (con_sufijo b ''.pdf'' j)"
    by blast
  let ?f = "con_sufijo b ''.pdf'' k"
  have f: "nombre_libre fs ds (fst (splitext ?c)) (snd (splitext ?c)) ?c (Suc 0) = ?f"
    by (simp add: sp k(2))
  have "procesar_pdf dp ds fs n st =
      (if nombre_largo ?f
       then (fs, advertir (ErrorAlProcesar (relpath dp n) OSError) ?st)
       else (cambiar_nombre n ?f fs,
             anotar (relpath dp ?f) (imprimir (Renombrado (relpath dp n) (relpath dp ?f)) ?st)))"
    using intentar_renombra(3,4) [OF assms(1,2) assms(4) nn, where dp = dp and st = "?st" and ds = ds]
    unfolding f by (simp add: procesar_pdf_def Let_def)
  with k(1,3,4) show ?thesis
    unfolding con_sufijo_def by (intro exI [of _ k]) simp
qed

text \<open>
  The limit of 255 bytes: a name line of 251 letters gives a candidate that fits, one
  of 252 letters gives a candidate that \<open>os.rename\<close> refuses.
\<close>

lemma falla_nombre_largo:
  "falla ''a.pdf'' (doc_de (replicate 251 CHR ''a'')) = None \<and>
   falla ''a.pdf'' (doc_de (replicate 252 CHR ''a'')) = Some OSError"
  by code_simp

text \<open>The example of the specification: three documents of one name in one directory.\<close>

lemma homonimos_renombrados:
  "renombrar_pdfs_en_directorio arbol_homonimos =
     (Carpeta [(''Juan Perez.pdf'', doc_de ''Juan Perez''),
               (''Juan Perez_1.pdf'', doc_de ''Juan Perez''),
               (''Juan Perez_2.pdf'', doc_de ''Juan Perez'')] [],
      \<lparr>pdf_procesados = 3,
       renombrados_info = [''Juan Perez.pdf'', ''Juan Perez_1.pdf'', ''Juan Perez_2.pdf''],
       advertencias_errores = [],
       impreso = [Iniciando, Renombrado ''a.pdf'' ''Juan Perez.pdf'',
                  Renombrado ''b.pdf'' ''Juan Perez_1.pdf'',
                  Renombrado ''c.pdf'' ''Juan Perez_2.pdf'', Finalizado]\<rparr>)"
  by code_simp

subsection \<open>The archive endpoint\<close>

lemma code_point_lower_char:
  "code_point (lower_char c) =
     (if (65 \<le> code_point c \<and> code_point c \<le> 90) \<or>
         (192 \<le> code_point c \<and> code_point c \<le> 222 \<and> code_point c \<noteq> 215)
      then code_point c + 32 else code_point c)"
  by (auto simp: lower_char_def code_point_def Let_def)

lemma char_eq_code_point: "(a = b) = (code_point a = code_point b)"
  by (simp add: code_point_def)

lemma lower_char_pdf:
  "(lower_char c = CHR ''.'') = (c = CHR ''.'')"
  "(lower_char c = CHR ''p'') = (c = CHR ''p'' \<or> c = CHR ''P'')"
  "(lower_char c = CHR ''d'') = (c = CHR ''d'' \<or> c = CHR ''D'')"
  "(lower_char c = CHR ''f'') = (c = CHR ''f'' \<or> c = CHR ''F'')"
  unfolding char_eq_code_point [of _ "CHR ''.''"] char_eq_code_point [of _ "CHR ''p''"]
    char_eq_code_point [of _ "CHR ''P''"] char_eq_code_point [of _ "CHR ''d''"]
    char_eq_code_point [of _ "CHR ''D''"] char_eq_code_point [of _ "CHR ''f''"]
    char_eq_code_point [of _ "CHR ''F''"] code_point_lower_char
  by (auto simp: code_point_def)

text \<open>The filter of line 228 is the one of the specification.\<close>

lemma es_pdf_termina: "es_pdf n = termina_en_pdf n"
proof (cases n rule: rev_cases)
  case Nil
  then show ?thesis by (simp add: es_pdf_def endswith_def lower_def termina_en_pdf_def)
next
  case (snoc n1 c3)
  show ?thesis
  proof (cases n1 rule: rev_cases)
    case Nil
    with snoc show ?thesis by (simp add: es_pdf_def endswith_def lower_def termina_en_pdf_def)
  next
    case s2: (snoc n2 c2)
    show ?thesis
    proof (cases n2 rule: rev_cases)
      case Nil
      with snoc s2 show ?thesis
        by (simp add: es_pdf_def endswith_def lower_def termina_en_pdf_def)
    next
      case s3: (snoc n3 c1)
      show ?thesis
      proof (cases n3 rule: rev_cases)
        case Nil
        with snoc s2 s3 show ?thesis
          by (simp add: es_pdf_def endswith_def lower_def termina_en_pdf_def)
      next
        case s4: (snoc b punto)
        with snoc s2 s3 show ?thesis
          by (auto simp: es_pdf_def endswith_def lower_def termina_en_pdf_def lower_char_pdf)
      qed
    qed
  qed
qed

text \<open>The entry name of line 230 is the path of the specification.\<close>

lemma join_ruta: "join ''/'' (dirpath @ [n]) = concat (map (\<lambda>d. d @ ''/'') dirpath) @ n"
proof (induction dirpath)
  case Nil
  show ?case by simp
next
  case (Cons d ds)
  then show ?case by (cases ds) simp_all
qed

lemma relpath_ruta: "relpath dirpath n = ruta dirpath n"
  by (simp add: relpath_def ruta_def join_ruta)

lemma zip_walk_entradas:
  "mset (zip_walk [] t) =
     image_mset (\<lambda>(dirpath, n, doc). (ruta dirpath n, doc))
       (filter_mset (\<lambda>(dirpath, n, doc). termina_en_pdf n) (mset (ficheros t)))"
proof -
  have "zip_walk [] t =
          map (\<lambda>(dirpath, n, doc). (ruta dirpath n, doc))
            (filter (\<lambda>(dirpath, n, doc). termina_en_pdf n) (ficheros t))"
    using zip_walk_pdfs(1) [of "[]" t] by (simp add: pdfs_def relpath_ruta es_pdf_termina)
  then show ?thesis by simp
qed

text \<open>The backward listing holds the same files in the same directories.\<close>

lemma ficheros_carpetas_append:
  "ficheros_carpetas (xs @ ys) = ficheros_carpetas xs @ ficheros_carpetas ys"
  by (induction xs) auto

lemma ficheros_al_reves:
  "mset (ficheros (al_reves t)) = mset (ficheros t)"
  "mset (ficheros_carpetas (al_reves_carpetas cs)) = mset (ficheros_carpetas cs)"
proof (induction t and cs rule: al_reves_al_reves_carpetas.induct)
  case (1 fs cs)
  then show ?case by simp
next
  case 2
  show ?case by simp
next
  case (3 d t cs)
  then show ?case by (simp add: ficheros_carpetas_append)
qed

text \<open>
  An upload whose name goes through a directory that the temporary directory does
  not hold is answered with 500, whatever its bytes are.
\<close>

lemma rename_pdf_sin_directorio:
  "rename_pdf listar (Some (''a/b.zip'', contenido)) = Error500 FileNotFoundError"
proof -
  have "endswith ''a/b.zip'' ''.zip''" by code_simp
  moreover have "zip_save ''a/b.zip'' = Some FileNotFoundError" by code_simp
  ultimately show ?thesis by (simp add: rename_pdf_def)
qed

lemma rename_pdf_falla:
  "endswith filename ''.zip'' \<Longrightarrow>
     rename_pdf listar (Some (filename, Falla e)) =
       Error500 (case zip_save filename of None \<Rightarrow> e | Some e' \<Rightarrow> e')"
  by (simp add: rename_pdf_def split: option.splits)

text \<open>
  The second run on the three documents of one name, listed as the first run left
  them: the two files with a suffix are renamed again.
\<close>

lemma homonimos_segunda_vez:
  "fst (renombrar_pdfs_en_directorio (fst (renombrar_pdfs_en_directorio arbol_homonimos))) =
     Carpeta [(''Juan Perez.pdf'', doc_de ''Juan Perez''),
              (''Juan Perez_3.pdf'', doc_de ''Juan Perez''),
              (''Juan Perez_1.pdf'', doc_de ''Juan Perez'')] []"
  by code_simp


section \<open>The claims\<close>

subsection \<open>C1: the extractor returns the line before the first anchor line\<close>

text \<open>
  C1. Let the lines of the text be \<open>split salto t\<close>. If \<open>k\<close> is the first index greater
  than zero whose line contains the anchor, the extractor returns line \<open>k - 1\<close> with
  the surrounding white space trimmed: the line is the result with white space only
  before and after it, and the result neither starts nor ends with white space. If
  no line of index greater than zero contains the anchor (the anchor is absent, or
  only in the first line), it returns \<open>None\<close>.
\<close>

theorem extractor_first_match:
  "(0 < k \<and> k < length (split salto t) \<and> contains ancla (split salto t ! k) \<and>
    (\<forall>j. 0 < j \<and> j < k \<longrightarrow> \<not> contains ancla (split salto t ! j))
      \<longrightarrow> (\<exists>a r b. nombre_encontrado t = Some r \<and>
             r = strip (split salto t ! (k - 1)) \<and>
             split salto t ! (k - 1) = a @ r @ b \<and>
             list_all isspace a \<and> list_all isspace b \<and>
             (r = [] \<or> (\<not> isspace (hd r) \<and> \<not> isspace (last r))))) \<and>
   ((\<forall>j. 0 < j \<and> j < length (split salto t) \<longrightarrow> \<not> contains ancla (split salto t ! j))
      \<longrightarrow> nombre_encontrado t = None)"
proof (intro conjI impI)
  assume h: "0 < k \<and> k < length (split salto t) \<and> contains ancla (split salto t ! k) \<and>
    (\<forall>j. 0 < j \<and> j < k \<longrightarrow> \<not> contains ancla (split salto t ! j))"
  let ?l = "split salto t ! (k - 1)"
  have n: "nombre_encontrado t = Some (strip ?l)"
    unfolding nombre_encontrado_def
    using buscar_first [of 0 k "split salto t"] h by auto
  obtain a b where d: "?l = a @ strip ?l @ b" "list_all isspace a" "list_all isspace b"
    using strip_decompose [of ?l] by blast
  have e: "strip ?l = [] \<or> (\<not> isspace (hd (strip ?l)) \<and> \<not> isspace (last (strip ?l)))"
    using strip_ends [of ?l] by blast
  from n d e show "\<exists>a r b. nombre_encontrado t = Some r \<and>
             r = strip (split salto t ! (k - 1)) \<and>
             split salto t ! (k - 1) = a @ r @ b \<and>
             list_all isspace a \<and> list_all isspace b \<and>
             (r = [] \<or> (\<not> isspace (hd r) \<and> \<not> isspace (last r)))"
    by blast
next
  assume "\<forall>j. 0 < j \<and> j < length (split salto t) \<longrightarrow> \<not> contains ancla (split salto t ! j)"
  then show "nombre_encontrado t = None"
    unfolding nombre_encontrado_def
    using buscar_none [of 0 "split salto t"] by auto
qed

theorem extractor_first_match_witness:
  "nombre_encontrado texto_ejemplo = Some ''B'' \<and>
   nombre_encontrado texto_con_espacios = Some ''Juan  Perez'' \<and>
   nombre_encontrado (ancla @ [salto] @ ''C'') = None \<and>
   nombre_encontrado ''A'' = None"
proof -
  have ls: "split salto texto_ejemplo = [''A'', ''B'', ancla, ''C'']"
    by (simp add: texto_ejemplo_def salto_def ancla_def)
  have a: "contains ancla ancla" by (simp add: contains_iff) (metis append_Nil append_Nil2)
  have b: "\<not> contains ancla ''B''" by (simp add: ancla_def startswith_def)
  have c: "\<not> contains ancla ''C''" by (simp add: ancla_def startswith_def)
  have j: "\<And>j::nat. 0 < j \<and> j < 2 \<Longrightarrow> j = 1" by arith
  have "0 < (2::nat) \<and> 2 < length (split salto texto_ejemplo) \<and>
      contains ancla (split salto texto_ejemplo ! 2) \<and>
      (\<forall>j. 0 < j \<and> j < 2 \<longrightarrow> \<not> contains ancla (split salto texto_ejemplo ! j))"
    using a b j by (auto simp: ls)
  with extractor_first_match [of 2 texto_ejemplo]
  have "nombre_encontrado texto_ejemplo = Some (strip (split salto texto_ejemplo ! (2 - 1)))"
    by blast
  then have 1: "nombre_encontrado texto_ejemplo = Some ''B''"
    by (simp add: ls strip_def isspace_def code_point_def)
  let ?l1 = "[CHR '' '', CHR 0x09] @ ''Juan  Perez'' @ [CHR 0xA0, CHR 0x0D]"
  let ?l2 = "''Campo: '' @ ancla @ '' (ver)''"
  have le: "split salto texto_con_espacios = [ancla, ?l1, ?l2, ''C'']"
    by code_simp
  have a2: "contains ancla ?l2" by code_simp
  have b2: "\<not> contains ancla ?l1" by code_simp
  have s2: "strip ?l1 = ''Juan  Perez''" by code_simp
  have "0 < (2::nat) \<and> 2 < length (split salto texto_con_espacios) \<and>
      contains ancla (split salto texto_con_espacios ! 2) \<and>
      (\<forall>j. 0 < j \<and> j < 2 \<longrightarrow> \<not> contains ancla (split salto texto_con_espacios ! j))"
    unfolding le using a2 b2 j by auto
  with extractor_first_match [of 2 texto_con_espacios]
  have "nombre_encontrado texto_con_espacios =
      Some (strip (split salto texto_con_espacios ! (2 - 1)))"
    by blast
  then have 4: "nombre_encontrado texto_con_espacios = Some ''Juan  Perez''"
    unfolding le using s2 by simp
  have ls2: "split salto (ancla @ [salto] @ ''C'') = [ancla, ''C'']"
    by (simp add: salto_def ancla_def)
  have "\<forall>j. 0 < j \<and> j < length (split salto (ancla @ [salto] @ ''C''))
      \<longrightarrow> \<not> contains ancla (split salto (ancla @ [salto] @ ''C'') ! j)"
    unfolding ls2 using c by (auto simp: less_Suc_eq)
  then have 2: "nombre_encontrado (ancla @ [salto] @ ''C'') = None"
    using extractor_first_match [of 0 "ancla @ [salto] @ ''C''"] by blast
  have ls3: "split salto ''A'' = [''A'']"
    by (simp add: salto_def)
  have "\<forall>j. 0 < j \<and> j < length (split salto ''A'') \<longrightarrow> \<not> contains ancla (split salto ''A'' ! j)"
    unfolding ls3 by simp
  then have 3: "nombre_encontrado ''A'' = None"
    using extractor_first_match [of 0 "''A''"] by blast
  from 1 4 2 3 show ?thesis by simp
qed

subsection \<open>C2: the collision suffix\<close>

text \<open>
  C2 at two documents whose name line is \<open>?\<close>: the sanitized name is empty, the
  candidate is \<open>.pdf\<close>, and \<open>splitext\<close> takes a name of leading dots only as a base
  with no extension. The second document is therefore renamed to \<open>.pdf_1\<close>: the suffix
  comes after the extension, not before it. For a sanitized name with a character
  other than a dot the loop does what C2 says (\<open>collision_policy\<close>,
  \<open>homonimos_renombrados\<close>).
\<close>

theorem suffix_after_extension_for_dot_names:
  "renombrar_pdfs_en_directorio arbol_signos =
     (Carpeta [(''.pdf'', doc_de ''?''), (''.pdf_1'', doc_de ''?'')] [],
      \<lparr>pdf_procesados = 2, renombrados_info = [''.pdf'', ''.pdf_1''],
       advertencias_errores = [],
       impreso = [Iniciando, Renombrado ''a.pdf'' ''.pdf'',
                  Renombrado ''b.pdf'' ''.pdf_1'', Finalizado]\<rparr>)"
  by code_simp

subsection \<open>C3: a second run\<close>

text \<open>
  C3 at a directory with two documents of the name Juan Perez and nothing else. The
  first run leaves \<open>Juan Perez.pdf\<close> and \<open>Juan Perez_1.pdf\<close>. The second run compares
  the path of \<open>Juan Perez_1.pdf\<close> with the candidate without suffix (line 92), finds
  them different, finds \<open>Juan Perez.pdf\<close> and \<open>Juan Perez_1.pdf\<close> taken, and renames
  the file to \<open>Juan Perez_2.pdf\<close>: one renamed outcome, and the file that got a
  collision suffix does not stay at its first-run name. This holds in either order
  in which the second run may list the two files. On a tree where every PDF bears
  the name computed for it, a run does what C3 says (\<open>renombrar_asentado\<close>).
\<close>

theorem second_run_renames_suffixed_file:
  "fst (renombrar_pdfs_en_directorio arbol_pareja) =
     Carpeta [(''Juan Perez.pdf'', doc_de ''Juan Perez''),
              (''Juan Perez_1.pdf'', doc_de ''Juan Perez'')] [] \<and>
   renombrar_pdfs_en_directorio
     (Carpeta [(''Juan Perez.pdf'', doc_de ''Juan Perez''),
               (''Juan Perez_1.pdf'', doc_de ''Juan Perez'')] []) =
     (Carpeta [(''Juan Perez.pdf'', doc_de ''Juan Perez''),
               (''Juan Perez_2.pdf'', doc_de ''Juan Perez'')] [],
      \<lparr>pdf_procesados = 2,
       renombrados_info = [''Juan Perez.pdf'', ''Juan Perez_2.pdf''],
       advertencias_errores = [],
       impreso = [Iniciando, YaNombrado ''Juan Perez.pdf'',
                  Renombrado ''Juan Perez_1.pdf'' ''Juan Perez_2.pdf'', Finalizado]\<rparr>) \<and>
   renombrar_pdfs_en_directorio
     (Carpeta [(''Juan Perez_1.pdf'', doc_de ''Juan Perez''),
               (''Juan Perez.pdf'', doc_de ''Juan Perez'')] []) =
     (Carpeta [(''Juan Perez_2.pdf'', doc_de ''Juan Perez''),
               (''Juan Perez.pdf'', doc_de ''Juan Perez'')] [],
      \<lparr>pdf_procesados = 2,
       renombrados_info = [''Juan Perez_2.pdf'', ''Juan Perez.pdf''],
       advertencias_errores = [],
       impreso = [Iniciando, Renombrado ''Juan Perez_1.pdf'' ''Juan Perez_2.pdf'',
                  YaNombrado ''Juan Perez.pdf'', Finalizado]\<rparr>)"
  by code_simp

subsection \<open>C4: an \<open>alumniName\<close> of white space\<close>

text \<open>
  C4 at the input \<open>{"alumniName": "   "}\<close>: the name is not stripped before the test of
  line 134, so the request is served (a coupon with folio \<open>0037\<close>) and the next
  request gets \<open>0038\<close>.
\<close>

theorem blank_alumni_name_consumes_folio:
  "atender [(con_assets, peticion_en_blanco), (con_assets, peticion_ana)] 36 =
     ([Cupon [((160, 28), Literal ''0037'', TrueType 32),
              ((400, 315), Mayusculas ''   '', TrueType 32)] ''0037'',
       cupon_ana ''0038''], 38)"
  by code_simp

subsection \<open>C5: the sanitizer deletes exactly the nine characters\<close>

text \<open>
  C5. For every name, \<open>limpiar_nombre_archivo\<close> returns the name with exactly the
  characters \<^verbatim>\<open>\ / * ? : " < > |\<close> deleted and every other character kept in its
  place and order; the function is total, and the empty name gives the empty name.
\<close>

theorem sanitizer_deletes_exactly:
  "limpiar_nombre_archivo s = filter (\<lambda>c. c \<notin> caracteres_invalidos) s \<and>
   limpiar_nombre_archivo [] = []"
  by (simp add: limpiar_nombre_archivo_def re_sub_vacio_filter clase_patron)

subsection \<open>C6: the folio of the N-th coupon\<close>

text \<open>
  As stated, C6 fails: a request that passed the validation and then failed has
  consumed a folio. The first coupon after a request that found no base image, or
  after a request whose \<open>alumniName\<close> is the number 5 (\<open>.upper()\<close> raises inside the
  \<open>try\<close>), carries \<open>0038\<close>, not \<open>str(36 + 1).zfill(4)\<close>.
\<close>

theorem folio_sequence_counterexample:
  "atender [(sin_imagen, peticion_ana), (con_assets, peticion_ana)] 36 =
     ([Error500_archivo, cupon_ana ''0038''], 38) \<and>
   atender [(con_assets, peticion_numero), (con_assets, peticion_ana)] 36 =
     ([Error500_interno AttributeError, cupon_ana ''0038''], 38) \<and>
   zfill (str (36 + 1)) 4 = ''0037''"
  by code_simp

text \<open>
  C6, amended. Serving any requests from \<open>current_folio = 36\<close>: when response \<open>i\<close> is a
  coupon, its folio is \<open>str(36 + N + F).zfill(4)\<close>, where \<open>N\<close> counts the coupons up to
  and including this one and \<open>F\<close> the earlier requests that passed the validation and
  ended in a 500 of the \<open>try\<close>. With no such failure the folio is \<open>str(36 + N).zfill(4)\<close>.
\<close>

theorem folio_of_nth_generation:
  assumes "atender reqs 36 = (rs, f)" and "i < length rs" and "rs ! i = Cupon img fol"
  shows "fol = zfill (str (36 + int (length (filter es_cupon (take (Suc i) rs)))
                             + int (length (filter es_error_500_del_try (take i rs))))) 4"
proof -
  have "take (Suc i) rs = take i rs @ [Cupon img fol]"
    using assms(2,3) by (simp add: take_Suc_conv_app_nth)
  then have "length (filter es_error_500_del_try (take (Suc i) rs)) =
      length (filter es_error_500_del_try (take i rs))"
    by simp
  then show ?thesis
    using atender_nth [OF assms] by (simp add: consume_split add.assoc)
qed

theorem folio_of_nth_generation_witness:
  "atender [(con_assets, peticion_ana)] 36 = ([cupon_ana ''0037''], 37) \<and>
   ''0037'' =
     zfill (str (36 + int (length (filter es_cupon (take (Suc 0) [cupon_ana ''0037''])))
                    + int (length (filter es_error_500_del_try (take 0 [cupon_ana ''0037'']))))) 4 \<and>
   atender [(sin_imagen, peticion_ana), (con_assets, peticion_ana)] 36 =
     ([Error500_archivo, cupon_ana ''0038''], 38) \<and>
   ''0038'' =
     zfill (str (36 + int (length (filter es_cupon
                                     (take (Suc 1) [Error500_archivo, cupon_ana ''0038''])))
                    + int (length (filter es_error_500_del_try
                                     (take 1 [Error500_archivo, cupon_ana ''0038'']))))) 4"
proof -
  have a: "atender [(con_assets, peticion_ana)] 36 = ([cupon_ana ''0037''], 37)"
    by code_simp
  have l: "0 < length [cupon_ana ''0037'']" by simp
  have n: "[cupon_ana ''0037''] ! 0 =
      Cupon [((160, 28), Literal ''0037'', TrueType 32),
             ((400, 315), Mayusculas ''Ana'', TrueType 32)] ''0037''"
    by (simp add: cupon_ana_def)
  have b: "atender [(sin_imagen, peticion_ana), (con_assets, peticion_ana)] 36 =
     ([Error500_archivo, cupon_ana ''0038''], 38)"
    by code_simp
  have m: "1 < length [Error500_archivo, cupon_ana ''0038'']" by simp
  have k: "[Error500_archivo, cupon_ana ''0038''] ! 1 =
      Cupon [((160, 28), Literal ''0038'', TrueType 32),
             ((400, 315), Mayusculas ''Ana'', TrueType 32)] ''0038''"
    by (simp add: cupon_ana_def)
  from folio_of_nth_generation [OF a l n] folio_of_nth_generation [OF b m k] a b
  show ?thesis by blast
qed

subsection \<open>C7: the folio stays consumed when the request fails later\<close>

text \<open>
  C7. A request that passes the validation of line 134 leaves \<open>current_folio\<close> one
  higher, whatever the response is. When the base image is missing the response is
  the 500 of the \<open>FileNotFoundError\<close> handler, and when the image is there and
  \<open>alumniName\<close> is not a string the response is the 500 of the general handler; in
  both the counter is still one higher.
\<close>

theorem folio_consumed_after_validation:
  "pasa_validacion data \<Longrightarrow>
     snd (generate_coupon env data f) = f + 1 \<and>
     (\<not> coupon_base env \<longrightarrow> generate_coupon env data f = (Error500_archivo, f + 1)) \<and>
     (coupon_base env \<and> dict_get data ''alumniName'' JNull = Inr v \<and> \<not> es_str v \<longrightarrow>
        generate_coupon env data f = (Error500_interno AttributeError, f + 1))"
  using generate_coupon_counter [of env data f] generate_coupon_sin_imagen [of data env f]
    generate_coupon_alumni_no_str [of data env v f]
  by auto

theorem folio_consumed_after_validation_witness:
  "pasa_validacion peticion_ana \<and> \<not> coupon_base sin_imagen \<and>
   snd (generate_coupon sin_imagen peticion_ana 36) = 36 + 1 \<and>
   generate_coupon sin_imagen peticion_ana 36 = (Error500_archivo, 36 + 1) \<and>
   pasa_validacion peticion_numero \<and> coupon_base con_assets \<and>
   generate_coupon con_assets peticion_numero 36 = (Error500_interno AttributeError, 36 + 1)"
proof -
  have p: "pasa_validacion peticion_ana" by code_simp
  have n: "\<not> coupon_base sin_imagen" by (simp add: sin_imagen_def)
  have q: "pasa_validacion peticion_numero" by code_simp
  have c: "coupon_base con_assets" by (simp add: con_assets_def)
  have g: "dict_get peticion_numero ''alumniName'' JNull = Inr (JInt 5)" by code_simp
  have s: "\<not> es_str (JInt 5)" by simp
  from folio_consumed_after_validation [OF p, of sin_imagen 36] p n
  have 1: "snd (generate_coupon sin_imagen peticion_ana 36) = 36 + 1"
    "generate_coupon sin_imagen peticion_ana 36 = (Error500_archivo, 36 + 1)"
    by blast+
  from folio_consumed_after_validation [OF q, of con_assets 36 "JInt 5"] c g s
  have 2: "generate_coupon con_assets peticion_numero 36 = (Error500_interno AttributeError, 36 + 1)"
    by blast
  from p n 1 q c 2 show ?thesis by blast
qed

subsection \<open>C8: one failing file does not stop the run\<close>

text \<open>
  C8. An exception raised in the \<open>try\<close> for one PDF is caught: the directory is left as
  it was, the error message with the path of the file relative to the root is
  appended to \<open>advertencias_errores\<close>, and the loop goes on with the remaining names.
  For a whole tree (names distinct in each directory): every PDF whose processing
  raises is reported under its relative path, every PDF of the tree is counted as
  processed, and each leaves one entry in one of the two lists.
\<close>

theorem failure_containment:
  "(es_pdf n \<and> intentar dp ds fs n (st\<lparr>pdf_procesados := pdf_procesados st + 1\<rparr>) = Inl e \<longrightarrow>
      procesar_archivos dp ds fs (n # ns) st =
        procesar_archivos dp ds fs ns
          (advertir (ErrorAlProcesar (relpath dp n) e)
             (st\<lparr>pdf_procesados := pdf_procesados st + 1\<rparr>))) \<and>
   (bien_formado t \<longrightarrow>
      (\<forall>(dirpath, m, doc) \<in> set (pdfs t). \<forall>x. falla m doc = Some x \<longrightarrow>
          ErrorAlProcesar (relpath dirpath m) x \<in>
            set (advertencias_errores (snd (renombrar_pdfs_en_directorio t)))) \<and>
      pdf_procesados (snd (renombrar_pdfs_en_directorio t)) = length (pdfs t) \<and>
      length (renombrados_info (snd (renombrar_pdfs_en_directorio t))) +
      length (advertencias_errores (snd (renombrar_pdfs_en_directorio t))) =
        (if pdfs t = [] then 1 else length (pdfs t)))"
proof (intro conjI impI)
  assume "es_pdf n \<and> intentar dp ds fs n (st\<lparr>pdf_procesados := pdf_procesados st + 1\<rparr>) = Inl e"
  then show "procesar_archivos dp ds fs (n # ns) st =
        procesar_archivos dp ds fs ns
          (advertir (ErrorAlProcesar (relpath dp n) e)
             (st\<lparr>pdf_procesados := pdf_procesados st + 1\<rparr>))"
    by (simp add: procesar_pdf_def Let_def)
next
  assume "bien_formado t"
  then show "\<forall>(dirpath, m, doc) \<in> set (pdfs t). \<forall>x. falla m doc = Some x \<longrightarrow>
          ErrorAlProcesar (relpath dirpath m) x \<in>
            set (advertencias_errores (snd (renombrar_pdfs_en_directorio t)))"
    using renombrar_errores by blast
qed (rule renombrar_cuenta)+

theorem failure_containment_witness:
  "es_pdf ''z.pdf'' \<and>
   intentar [''sub''] [] archivos_sub ''z.pdf''
     (estado_inicial\<lparr>pdf_procesados := pdf_procesados estado_inicial + 1\<rparr>) =
       Inl (PdfError ''bad'') \<and>
   procesar_archivos [''sub''] [] archivos_sub [''z.pdf'', ''w.pdf''] estado_inicial =
     procesar_archivos [''sub''] [] archivos_sub [''w.pdf'']
       (advertir (ErrorAlProcesar (relpath [''sub''] ''z.pdf'') (PdfError ''bad''))
          (estado_inicial\<lparr>pdf_procesados := pdf_procesados estado_inicial + 1\<rparr>)) \<and>
   bien_formado arbol_mixto \<and>
   ErrorAlProcesar ''sub/z.pdf'' (PdfError ''bad'') \<in>
     set (advertencias_errores (snd (renombrar_pdfs_en_directorio arbol_mixto))) \<and>
   ErrorAlProcesar ''sub/v.pdf'' ValueError \<in>
     set (advertencias_errores (snd (renombrar_pdfs_en_directorio arbol_mixto))) \<and>
   pdf_procesados (snd (renombrar_pdfs_en_directorio arbol_mixto)) = 4 \<and>
   length (renombrados_info (snd (renombrar_pdfs_en_directorio arbol_mixto))) +
   length (advertencias_errores (snd (renombrar_pdfs_en_directorio arbol_mixto))) = 4"
proof -
  have p: "es_pdf ''z.pdf''" by code_simp
  have i: "intentar [''sub''] [] archivos_sub ''z.pdf''
     (estado_inicial\<lparr>pdf_procesados := pdf_procesados estado_inicial + 1\<rparr>) =
       Inl (PdfError ''bad'')"
    by code_simp
  have w: "bien_formado arbol_mixto" by code_simp
  have z: "([''sub''], ''z.pdf'', Ilegible ''bad'') \<in> set (pdfs arbol_mixto)" by code_simp
  have v: "([''sub''], ''v.pdf'', doc_de [nul]) \<in> set (pdfs arbol_mixto)" by code_simp
  have fz: "falla ''z.pdf'' (Ilegible ''bad'') = Some (PdfError ''bad'')" by code_simp
  have fv: "falla ''v.pdf'' (doc_de [nul]) = Some ValueError" by code_simp
  have rz: "relpath [''sub''] ''z.pdf'' = ''sub/z.pdf''" by code_simp
  have rv: "relpath [''sub''] ''v.pdf'' = ''sub/v.pdf''" by code_simp
  have n: "length (pdfs arbol_mixto) = 4" "pdfs arbol_mixto \<noteq> []" by code_simp+
  note th = failure_containment [where n = "''z.pdf''" and dp = "[''sub'']" and ds = "[]"
      and fs = archivos_sub and st = estado_inicial and e = "PdfError ''bad''"
      and ns = "[''w.pdf'']" and t = arbol_mixto]
  from th p i have 1:
    "procesar_archivos [''sub''] [] archivos_sub [''z.pdf'', ''w.pdf''] estado_inicial =
     procesar_archivos [''sub''] [] archivos_sub [''w.pdf'']
       (advertir (ErrorAlProcesar (relpath [''sub''] ''z.pdf'') (PdfError ''bad''))
          (estado_inicial\<lparr>pdf_procesados := pdf_procesados estado_inicial + 1\<rparr>))"
    by blast
  from th w z fz rz have 2:
    "ErrorAlProcesar ''sub/z.pdf'' (PdfError ''bad'') \<in>
       set (advertencias_errores (snd (renombrar_pdfs_en_directorio arbol_mixto)))"
    by force
  from th w v fv rv have 3:
    "ErrorAlProcesar ''sub/v.pdf'' ValueError \<in>
       set (advertencias_errores (snd (renombrar_pdfs_en_directorio arbol_mixto)))"
    by force
  from th w n have 4:
    "pdf_procesados (snd (renombrar_pdfs_en_directorio arbol_mixto)) = 4"
    "length (renombrados_info (snd (renombrar_pdfs_en_directorio arbol_mixto))) +
     length (advertencias_errores (snd (renombrar_pdfs_en_directorio arbol_mixto))) = 4"
    by simp_all
  from p i 1 w 2 3 4 show ?thesis by blast
qed

subsection \<open>C9: the output archive\<close>

text \<open>
  C9. An upload is processed with success when its name ends in \<open>.zip\<close>, the name
  raises nothing in \<open>save\<close>, and its bytes unpack to a tree. The second walk lists the
  tree that the rename engine left, with the same files in the same directories, in
  an order of its own. The response is then an archive, and its entries are exactly
  the files of that tree whose names end in \<open>.pdf\<close>, in capital or small letters,
  each once, under its path relative to the root and with its content; a file of
  another name is no entry.
\<close>

theorem output_archive_contents:
  assumes "endswith filename ''.zip''" and "zip_save filename = None"
    and "mset (ficheros (listar (fst (renombrar_pdfs_en_directorio extracted)))) =
         mset (ficheros (fst (renombrar_pdfs_en_directorio extracted)))"
  shows "\<exists>entradas.
           rename_pdf listar (Some (filename, Extraido extracted)) = Renombrados entradas \<and>
           mset entradas =
             image_mset (\<lambda>(dirpath, n, doc). (ruta dirpath n, doc))
               (filter_mset (\<lambda>(dirpath, n, doc). termina_en_pdf n)
                  (mset (ficheros (fst (renombrar_pdfs_en_directorio extracted)))))"
proof -
  let ?t = "fst (renombrar_pdfs_en_directorio extracted)"
  have "rename_pdf listar (Some (filename, Extraido extracted)) =
          Renombrados (zip_walk [] (listar ?t))"
    using assms(1,2) by (simp add: rename_pdf_def split: prod.splits)
  moreover have "mset (zip_walk [] (listar ?t)) =
      image_mset (\<lambda>(dirpath, n, doc). (ruta dirpath n, doc))
        (filter_mset (\<lambda>(dirpath, n, doc). termina_en_pdf n) (mset (ficheros ?t)))"
    unfolding zip_walk_entradas assms(3) by (rule refl)
  ultimately show ?thesis by blast
qed

theorem output_archive_contents_witness:
  "endswith ''in.zip'' ''.zip'' \<and> zip_save ''in.zip'' = None \<and>
   mset (ficheros (al_reves (fst (renombrar_pdfs_en_directorio arbol_subido)))) =
     mset (ficheros (fst (renombrar_pdfs_en_directorio arbol_subido))) \<and>
   ficheros (al_reves (fst (renombrar_pdfs_en_directorio arbol_subido))) \<noteq>
     ficheros (fst (renombrar_pdfs_en_directorio arbol_subido)) \<and>
   (\<exists>entradas.
      rename_pdf al_reves (Some (''in.zip'', Extraido arbol_subido)) = Renombrados entradas \<and>
      mset entradas =
        {#(''X Y.pdf'', doc_de ''X Y''), (''Juan Perez.pdf'', doc_de ''Juan Perez''),
          (''sub/B.PDF'', sin_ancla)#})"
proof -
  have z: "endswith ''in.zip'' ''.zip''" by code_simp
  have s: "zip_save ''in.zip'' = None" by code_simp
  have m: "mset (ficheros (al_reves (fst (renombrar_pdfs_en_directorio arbol_subido)))) =
           mset (ficheros (fst (renombrar_pdfs_en_directorio arbol_subido)))"
    by (rule ficheros_al_reves(1))
  have d: "ficheros (al_reves (fst (renombrar_pdfs_en_directorio arbol_subido))) \<noteq>
           ficheros (fst (renombrar_pdfs_en_directorio arbol_subido))"
    by code_simp
  have e: "map (\<lambda>(dirpath, n, doc). (ruta dirpath n, doc))
             (filter (\<lambda>(dirpath, n, doc). termina_en_pdf n)
                (ficheros (fst (renombrar_pdfs_en_directorio arbol_subido)))) =
           [(''X Y.pdf'', doc_de ''X Y''), (''Juan Perez.pdf'', doc_de ''Juan Perez''),
            (''sub/B.PDF'', sin_ancla)]"
    by code_simp
  have "image_mset (\<lambda>(dirpath, n, doc). (ruta dirpath n, doc))
          (filter_mset (\<lambda>(dirpath, n, doc). termina_en_pdf n)
             (mset (ficheros (fst (renombrar_pdfs_en_directorio arbol_subido))))) =
        mset [(''X Y.pdf'', doc_de ''X Y''), (''Juan Perez.pdf'', doc_de ''Juan Perez''),
              (''sub/B.PDF'', sin_ancla)]"
    unfolding e [symmetric] by simp
  then have "\<exists>entradas.
      rename_pdf al_reves (Some (''in.zip'', Extraido arbol_subido)) = Renombrados entradas \<and>
      mset entradas =
        {#(''X Y.pdf'', doc_de ''X Y''), (''Juan Perez.pdf'', doc_de ''Juan Perez''),
          (''sub/B.PDF'', sin_ancla)#}"
    using output_archive_contents [of "''in.zip''" al_reves arbol_subido, OF z s m] by simp
  with z s m d show ?thesis by blast
qed

subsection \<open>C10: a \<open>recipientName\<close> that is not a string\<close>

text \<open>
  C10. When the body is an object whose \<open>recipientName\<close> is not a string (\<open>null\<close>, a
  number, a list, ...), \<open>.strip()\<close> raises outside the \<open>try\<close>: the request ends in an
  unhandled \<open>AttributeError\<close> (HTTP 500) and the folio is untouched, whatever
  \<open>alumniName\<close> is, also when it is missing.
\<close>

theorem recipient_not_a_string_is_unhandled:
  "map_of d ''recipientName'' = Some v \<Longrightarrow> \<not> es_str v \<Longrightarrow>
     generate_coupon env (JDict d) f = (Error500_no_controlado AttributeError, f)"
  by (cases v) (auto simp: generate_coupon_def split: option.splits)

theorem recipient_not_a_string_is_unhandled_witness:
  "generate_coupon con_assets (JDict [(''recipientName'', JNull)]) 36 =
     (Error500_no_controlado AttributeError, 36)"
proof -
  have "map_of [(''recipientName'', JNull)] ''recipientName'' = Some JNull" by simp
  moreover have "\<not> es_str JNull" by simp
  ultimately show ?thesis by (rule recipient_not_a_string_is_unhandled)
qed

end
